theory Spec2Isabelle
  imports Main "HOL-Library.Sublist"
begin

section \<open>Python strings and the regular expressions of \<^verbatim>\<open>main.py\<close>\<close>

text \<open>
  A Python \<^verbatim>\<open>str\<close> is a sequence of Unicode code points, so a string is a list of
  naturals; \<open>ascii\<close> embeds an ASCII literal. The Cyrillic letters and the operator
  signs the program names are far outside the range of \<^typ>\<open>char\<close>.
\<close>

type_synonym ustring = "nat list"

definition ascii :: "string \<Rightarrow> ustring" where
  "ascii s = map of_char s"

text \<open>
  Character classes of \<^verbatim>\<open>re\<close> on \<^verbatim>\<open>str\<close> patterns. \<^verbatim>\<open>\s\<close> is \<^verbatim>\<open>str.isspace\<close>, a
  short fixed list. \<^verbatim>\<open>\w\<close> is \<^verbatim>\<open>str.isalnum\<close> or the underscore and \<^verbatim>\<open>\d\<close> is the
  Unicode category Nd: both are written out for code points below 256 and taken from
  the interpreter's Unicode tables (a parameter) above.
\<close>

record unicode_db =
  uni_alnum :: "nat \<Rightarrow> bool"
  uni_decimal :: "nat \<Rightarrow> bool"

definition is_space :: "nat \<Rightarrow> bool" where
  "is_space c \<longleftrightarrow>
     (9 \<le> c \<and> c \<le> 13) \<or> (28 \<le> c \<and> c \<le> 32) \<or> c = 133 \<or> c = 160 \<or> c = 5760 \<or>
     (8192 \<le> c \<and> c \<le> 8202) \<or> c = 8232 \<or> c = 8233 \<or> c = 8239 \<or> c = 8287 \<or>
     c = 12288"

definition is_letter_us :: "nat \<Rightarrow> bool" where
  \<comment> \<open>\<^verbatim>\<open>[a-zA-Z_]\<close>\<close>
  "is_letter_us c \<longleftrightarrow> (65 \<le> c \<and> c \<le> 90) \<or> (97 \<le> c \<and> c \<le> 122) \<or> c = 95"

definition is_digit :: "unicode_db \<Rightarrow> nat \<Rightarrow> bool" where
  \<comment> \<open>\<^verbatim>\<open>\d\<close>\<close>
  "is_digit U c \<longleftrightarrow> (48 \<le> c \<and> c \<le> 57) \<or> (256 \<le> c \<and> uni_decimal U c)"

definition latin1_alnum :: "nat \<Rightarrow> bool" where
  "latin1_alnum c \<longleftrightarrow>
     c = 170 \<or> c = 178 \<or> c = 179 \<or> c = 181 \<or> c = 185 \<or> c = 186 \<or>
     (188 \<le> c \<and> c \<le> 190) \<or> (192 \<le> c \<and> c \<le> 214) \<or> (216 \<le> c \<and> c \<le> 246) \<or>
     (248 \<le> c \<and> c \<le> 255)"

definition is_word :: "unicode_db \<Rightarrow> nat \<Rightarrow> bool" where
  \<comment> \<open>\<^verbatim>\<open>\w\<close>\<close>
  "is_word U c \<longleftrightarrow>
     is_letter_us c \<or> (48 \<le> c \<and> c \<le> 57) \<or> latin1_alnum c \<or> (256 \<le> c \<and> uni_alnum U c)"

text \<open>
  \<^verbatim>\<open>re.sub\<close> scans from the left. At a position where the pattern matches, the
  replacement is written and the scan resumes after the match; elsewhere the
  character is copied. A matcher gets the character before the position (for \<^verbatim>\<open>\b\<close>)
  and the rest of the string, and returns the replacement with the length of the
  match. \<open>re_sub_from m k\<close> still has \<open>k\<close> characters of the last match to skip. Every
  pattern of the program matches at least one character.
\<close>

type_synonym matcher = "nat option \<Rightarrow> ustring \<Rightarrow> (ustring \<times> nat) option"

fun re_sub_from :: "matcher \<Rightarrow> nat \<Rightarrow> nat option \<Rightarrow> ustring \<Rightarrow> ustring" where
  "re_sub_from m k prev [] = []"
| "re_sub_from m (Suc k) prev (c # cs) = re_sub_from m k (Some c) cs"
| "re_sub_from m 0 prev (c # cs) =
     (case m prev (c # cs) of
        None \<Rightarrow> c # re_sub_from m 0 (Some c) cs
      | Some (rep, n) \<Rightarrow> rep @ re_sub_from m (n - 1) (Some c) cs)"

definition re_sub :: "matcher \<Rightarrow> ustring \<Rightarrow> ustring" where
  "re_sub m s = re_sub_from m 0 None s"

text \<open>\<^verbatim>\<open>re.search\<close>: the match at the leftmost position that has one.\<close>

fun re_search :: "(ustring \<Rightarrow> 'a option) \<Rightarrow> ustring \<Rightarrow> 'a option" where
  "re_search m [] = m []"
| "re_search m (c # cs) =
     (case m (c # cs) of Some g \<Rightarrow> Some g | None \<Rightarrow> re_search m cs)"

text \<open>\<^verbatim>\<open>old in s\<close> and \<^verbatim>\<open>s.replace(old, new)\<close>, for a non-empty \<open>old\<close>.\<close>

primrec contains :: "ustring \<Rightarrow> ustring \<Rightarrow> bool" where
  "contains w [] = (w = [])"
| "contains w (c # cs) = (prefix w (c # cs) \<or> contains w cs)"

definition m_literal :: "ustring \<Rightarrow> ustring \<Rightarrow> matcher" where
  "m_literal old new prev s = (if prefix old s then Some (new, length old) else None)"

definition py_replace :: "ustring \<Rightarrow> ustring \<Rightarrow> ustring \<Rightarrow> ustring" where
  "py_replace old new s = re_sub (m_literal old new) s"

definition strip :: "ustring \<Rightarrow> ustring" where
  "strip s = rev (dropWhile is_space (rev (dropWhile is_space s)))"

text \<open>\<^verbatim>\<open>\s+\<close> replaced by one space: the whole run of white space is one match.\<close>

definition m_spaces :: matcher where
  "m_spaces prev s =
     (let n = length (takeWhile is_space s)
      in if 0 < n then Some (ascii '' '', n) else None)"

text \<open>
  \<^verbatim>\<open>\b\<close> holds between a word character and a non-word character, the two ends of
  the string counting as non-word. \<open>m_word U w r\<close> is \<^verbatim>\<open>\bw\b\<close> replaced by \<open>r\<close>, for
  a non-empty literal \<open>w\<close>.
\<close>

definition at_boundary :: "unicode_db \<Rightarrow> nat option \<Rightarrow> ustring \<Rightarrow> bool" where
  "at_boundary U prev rest \<longleftrightarrow>
     (case prev of None \<Rightarrow> False | Some c \<Rightarrow> is_word U c) \<noteq>
     (case rest of [] \<Rightarrow> False | c # _ \<Rightarrow> is_word U c)"

definition m_word :: "unicode_db \<Rightarrow> ustring \<Rightarrow> ustring \<Rightarrow> matcher" where
  "m_word U w r prev s =
     (if at_boundary U prev s \<and> prefix w s \<and> at_boundary U (Some (last w)) (drop (length w) s)
      then Some (r, length w) else None)"

section \<open>The lexical normalizer: \<^verbatim>\<open>preprocess_text\<close>\<close>

definition cyrillic_replacements :: "(ustring \<times> ustring) list" where
  \<comment> \<open>the dictionary of \<^verbatim>\<open>__init__\<close>, in insertion order: kha, u, ze, a, be, ve, pe, ie\<close>
  "cyrillic_replacements =
     [([1093], ascii ''x''), ([1091], ascii ''y''), ([1079], ascii ''z''),
      ([1072], ascii ''a''), ([1073], ascii ''b''), ([1074], ascii ''c''),
      ([1087], ascii ''pi''), ([1077], ascii ''E'')]"

definition symbol_replacements :: "(ustring \<times> ustring) list" where
  \<comment> \<open>circumflex, root sign, infinity, plus-minus, multiplication sign, division sign\<close>
  "symbol_replacements =
     [(ascii ''^'', ascii ''**''), ([8730], ascii ''sqrt''), ([8734], ascii ''oo''),
      ([177], ascii ''+/-''), ([215], ascii ''*''), ([247], ascii ''/'')]"

definition function_aliases :: "(ustring \<times> ustring) list" where
  \<comment> \<open>\<^verbatim>\<open>function_patterns\<close> of \<^verbatim>\<open>preprocess_text\<close>, each between two \<^verbatim>\<open>\b\<close>\<close>
  "function_aliases =
     [(ascii ''lg'', ascii ''log10''), (ascii ''ln'', ascii ''log''),
      (ascii ''arctg'', ascii ''atan''), (ascii ''arcsin'', ascii ''asin''),
      (ascii ''arccos'', ascii ''acos''), (ascii ''sh'', ascii ''sinh''),
      (ascii ''ch'', ascii ''cosh''), (ascii ''th'', ascii ''tanh'')]"

definition replace_all :: "(ustring \<times> ustring) list \<Rightarrow> ustring \<Rightarrow> ustring" where
  "replace_all table s = foldl (\<lambda>e (old, new). py_replace old new e) s table"

definition replace_aliases :: "unicode_db \<Rightarrow> (ustring \<times> ustring) list \<Rightarrow> ustring \<Rightarrow> ustring" where
  "replace_aliases U table s = foldl (\<lambda>e (w, r). re_sub (m_word U w r) e) s table"

definition preprocess_text :: "unicode_db \<Rightarrow> ustring \<Rightarrow> ustring" where
  "preprocess_text U expression =
     replace_all symbol_replacements
       (replace_all cyrillic_replacements
         (replace_aliases U function_aliases
           (re_sub m_spaces (strip expression))))"

section \<open>The symbolic engine\<close>

text \<open>
  SymPy is outside the repository: its operations are the fields of a record, over a
  type \<open>'e\<close> of engine objects (expressions and solution payloads alike). An operation
  that can raise returns an option, \<open>None\<close> standing for the exception. Python's own
  \<^verbatim>\<open>None\<close> is the \<open>None\<close> of \<open>'e option\<close> wherever the program lets it flow.
\<close>

record 'e engine =
  sympify :: "ustring \<Rightarrow> 'e option"
  parse_expr :: "ustring \<Rightarrow> 'e option"
    \<comment> \<open>\<^verbatim>\<open>parse_with_implicit_multiplication\<close>\<close>
  parse_latex :: "ustring \<Rightarrow> 'e option"
  str_of :: "'e \<Rightarrow> ustring"
  is_number :: "'e \<Rightarrow> bool"
  free_symbols :: "'e \<Rightarrow> 'e list"
  call_function :: "ustring \<Rightarrow> 'e \<Rightarrow> 'e option"
    \<comment> \<open>\<^verbatim>\<open>sp.log(v, 10)\<close> under the name log10, \<^verbatim>\<open>sp.log(v)\<close>, \<^verbatim>\<open>sp.sqrt(v)\<close>, ...\<close>
  make_symbol :: "ustring \<Rightarrow> 'e option"
  make_eq :: "'e \<Rightarrow> 'e \<Rightarrow> 'e option"
  make_integral :: "'e \<Rightarrow> 'e \<Rightarrow> 'e option"
  make_derivative :: "'e \<Rightarrow> 'e \<Rightarrow> 'e option"
  has_zoo_or_nan :: "'e \<Rightarrow> bool option"
  is_Derivative :: "'e \<Rightarrow> bool"
  is_Integral :: "'e \<Rightarrow> bool"
  is_Eq :: "'e \<Rightarrow> bool"
  is_Symbol :: "'e \<Rightarrow> bool"
  simplify :: "'e \<Rightarrow> 'e option"
  simplify_of_None :: "'e option option"
    \<comment> \<open>\<^verbatim>\<open>sp.simplify(None)\<close>: raises, returns \<^verbatim>\<open>None\<close>, or returns an object\<close>
  expand :: "'e \<Rightarrow> 'e option"
  factor :: "'e \<Rightarrow> 'e option"
  cancel :: "'e \<Rightarrow> 'e option"
  collect :: "'e \<Rightarrow> 'e list \<Rightarrow> 'e option"
  trigsimp :: "'e \<Rightarrow> 'e option"
  logcombine :: "'e \<Rightarrow> 'e option"
  powsimp :: "'e \<Rightarrow> 'e option"
  expand_log :: "'e \<Rightarrow> 'e option"
  replace_log_exp :: "'e \<Rightarrow> 'e option"
    \<comment> \<open>\<^verbatim>\<open>expr.replace(log(exp(Wild('x'))), Wild('x'))\<close>\<close>
  count_ops :: "'e \<Rightarrow> nat option"
  doit :: "'e \<Rightarrow> 'e option"
  evalf :: "'e \<Rightarrow> 'e option"
  solve_var :: "'e \<Rightarrow> 'e \<Rightarrow> 'e option"
  solve_all :: "'e \<Rightarrow> 'e list \<Rightarrow> 'e option"
  solve_univariate_inequality :: "'e \<Rightarrow> 'e \<Rightarrow> 'e option"
  has_evalf :: "'e \<Rightarrow> bool"
  is_plain_iterable :: "'e \<Rightarrow> bool"
    \<comment> \<open>has \<^verbatim>\<open>__iter__\<close> and is neither a \<^verbatim>\<open>str\<close> nor a \<^verbatim>\<open>sp.Basic\<close>\<close>
  elements :: "'e \<Rightarrow> 'e list"
  latex :: "'e \<Rightarrow> ustring option"
  pretty :: "'e \<Rightarrow> ustring option"

section \<open>The notation resolver: \<^verbatim>\<open>handle_mathematical_notation\<close>\<close>

definition protected_words :: "ustring list" where
  "protected_words = map ascii
     [''pi'', ''E'', ''oo'', ''I'',
      ''sin'', ''cos'', ''tan'', ''cot'', ''sec'', ''csc'',
      ''asin'', ''acos'', ''atan'', ''acot'', ''asec'', ''acsc'',
      ''sinh'', ''cosh'', ''tanh'', ''coth'', ''sech'', ''csch'',
      ''log'', ''log10'', ''ln'', ''exp'', ''sqrt'', ''cbrt'',
      ''factorial'', ''gamma'', ''beta'',
      ''Abs'', ''abs'', ''Max'', ''Min'',
      ''Sum'', ''Product'', ''Integral'', ''Derivative'']"

definition eager_functions :: "ustring list" where
  \<comment> \<open>the names of \<^verbatim>\<open>function_patterns\<close>, in order\<close>
  "eager_functions = map ascii
     [''log10'', ''log'', ''sqrt'', ''sin'', ''cos'', ''tan'', ''factorial'', ''exp'']"

text \<open>
  \<^verbatim>\<open>name\(([^)]+)\)\<close>: after the name and the parenthesis, the longest run of
  characters other than \<^verbatim>\<open>)\<close>, which must be non-empty and followed by \<^verbatim>\<open>)\<close>. A shorter
  run would be followed by a character of the run, so backtracking finds nothing
  else. The callback gets the whole match and the group.
\<close>

definition m_call :: "ustring \<Rightarrow> (ustring \<Rightarrow> ustring \<Rightarrow> ustring) \<Rightarrow> matcher" where
  "m_call name f prev s =
     (if prefix (name @ ascii ''('') s then
        (let rest = drop (length name + 1) s;
             arg = takeWhile (\<lambda>c. c \<noteq> 41) rest
         in if arg \<noteq> [] \<and> length arg < length rest
            then Some (f (name @ ascii ''('' @ arg @ ascii '')'') arg, length name + length arg + 2)
            else None)
      else None)"

text \<open>
  \<^verbatim>\<open>replace_func\<close>: the call is replaced by the text of its value when the argument
  parses to a number or to an expression without free symbols; every exception
  keeps the text of the call.
\<close>

definition replace_func :: "'e engine \<Rightarrow> ustring \<Rightarrow> ustring \<Rightarrow> ustring \<Rightarrow> ustring" where
  "replace_func eng name whole arg =
     (case sympify eng arg of
        None \<Rightarrow> whole
      | Some arg_value \<Rightarrow>
          if is_number eng arg_value \<or> free_symbols eng arg_value = [] then
            (case call_function eng name arg_value of
               None \<Rightarrow> whole
             | Some v \<Rightarrow> str_of eng v)
          else whole)"

definition eval_numeric_calls :: "'e engine \<Rightarrow> ustring \<Rightarrow> ustring" where
  "eval_numeric_calls eng s =
     foldl (\<lambda>e name. re_sub (m_call name (replace_func eng name)) e) s eager_functions"

text \<open>\<^verbatim>\<open>(\w+)\^(\d+)\(([^)]+)\)\<close> replaced by \<^verbatim>\<open>\1(\3)**\2\<close>.\<close>

definition m_power :: "unicode_db \<Rightarrow> matcher" where
  "m_power U prev s =
     (let name = takeWhile (is_word U) s; r1 = dropWhile (is_word U) s
      in if name = [] then None else
         (case r1 of
            [] \<Rightarrow> None
          | c1 # r2 \<Rightarrow>
              if c1 \<noteq> 94 then None else
              (let ds = takeWhile (is_digit U) r2; r3 = dropWhile (is_digit U) r2
               in if ds = [] then None else
                  (case r3 of
                     [] \<Rightarrow> None
                   | c3 # r4 \<Rightarrow>
                       if c3 \<noteq> 40 then None else
                       (let args = takeWhile (\<lambda>c. c \<noteq> 41) r4
                        in if args \<noteq> [] \<and> length args < length r4
                           then Some (name @ ascii ''('' @ args @ ascii '')**'' @ ds,
                                      length name + length ds + length args + 3)
                           else None)))))"

text \<open>
  The protection loop: a protected word that occurs in the text is replaced by the
  next marker \<^verbatim>\<open>__TEMP_n__\<close>, and the marker is remembered with its word.
\<close>

function digits_of :: "nat \<Rightarrow> ustring" where
  "digits_of n = (if n < 10 then [48 + n] else digits_of (n div 10) @ [48 + n mod 10])"
  by pat_completeness auto
termination
  by (relation "measure id") auto

declare digits_of.simps [simp del]

definition temp_marker :: "nat \<Rightarrow> ustring" where
  "temp_marker n = ascii ''__TEMP_'' @ digits_of n @ ascii ''__''"

fun protect :: "ustring list \<Rightarrow> nat \<Rightarrow> (ustring \<times> ustring) list \<Rightarrow> ustring
    \<Rightarrow> (ustring \<times> ustring) list \<times> ustring" where
  "protect [] temp_counter temp_replacements expression = (temp_replacements, expression)"
| "protect (word # ws) temp_counter temp_replacements expression =
     (if contains word expression
      then protect ws (temp_counter + 1)
             (temp_replacements @ [(temp_marker temp_counter, word)])
             (py_replace word (temp_marker temp_counter) expression)
      else protect ws temp_counter temp_replacements expression)"

text \<open>
  The five rules of implicit multiplication. \<^verbatim>\<open>\d+\<close> takes the whole run of digits:
  the character class that follows it never holds a digit.
\<close>

definition m_digit_letter :: "unicode_db \<Rightarrow> matcher" where
  \<comment> \<open>\<^verbatim>\<open>(\d+)([a-zA-Z_])\<close> to \<^verbatim>\<open>\1*\2\<close>\<close>
  "m_digit_letter U prev s =
     (let ds = takeWhile (is_digit U) s
      in case dropWhile (is_digit U) s of
           [] \<Rightarrow> None
         | c # _ \<Rightarrow> if ds \<noteq> [] \<and> is_letter_us c
                    then Some (ds @ ascii ''*'' @ [c], length ds + 1) else None)"

definition m_letter_digit :: "unicode_db \<Rightarrow> matcher" where
  \<comment> \<open>\<^verbatim>\<open>([a-zA-Z_])(\d+)\<close> to \<^verbatim>\<open>\1*\2\<close>\<close>
  "m_letter_digit U prev s =
     (case s of
        [] \<Rightarrow> None
      | c # rest \<Rightarrow>
          (let ds = takeWhile (is_digit U) rest
           in if is_letter_us c \<and> ds \<noteq> []
              then Some (c # ascii ''*'' @ ds, length ds + 1) else None))"

definition m_digit_paren :: "unicode_db \<Rightarrow> matcher" where
  \<comment> \<open>\<^verbatim>\<open>(\d+)\(\<close> to \<^verbatim>\<open>\1*(\<close>\<close>
  "m_digit_paren U prev s =
     (let ds = takeWhile (is_digit U) s
      in case dropWhile (is_digit U) s of
           [] \<Rightarrow> None
         | c # _ \<Rightarrow> if ds \<noteq> [] \<and> c = 40
                    then Some (ds @ ascii ''*('', length ds + 1) else None)"

definition m_paren_letter :: matcher where
  \<comment> \<open>\<^verbatim>\<open>\)([a-zA-Z_])\<close> to \<^verbatim>\<open>)*\1\<close>\<close>
  "m_paren_letter prev s =
     (case s of
        c # d # _ \<Rightarrow> if c = 41 \<and> is_letter_us d then Some (ascii '')*'' @ [d], 2) else None
      | _ \<Rightarrow> None)"

definition m_paren_digit :: "unicode_db \<Rightarrow> matcher" where
  \<comment> \<open>\<^verbatim>\<open>\)(\d+)\<close> to \<^verbatim>\<open>)*\1\<close>\<close>
  "m_paren_digit U prev s =
     (case s of
        [] \<Rightarrow> None
      | c # rest \<Rightarrow>
          (let ds = takeWhile (is_digit U) rest
           in if c = 41 \<and> ds \<noteq> []
              then Some (ascii '')*'' @ ds, length ds + 1) else None))"

definition insert_multiplication :: "unicode_db \<Rightarrow> ustring \<Rightarrow> ustring" where
  "insert_multiplication U s =
     re_sub (m_paren_digit U)
       (re_sub m_paren_letter
         (re_sub (m_digit_paren U)
           (re_sub (m_letter_digit U)
             (re_sub (m_digit_letter U) s))))"

definition restore :: "(ustring \<times> ustring) list \<Rightarrow> ustring \<Rightarrow> ustring" where
  \<comment> \<open>the loop over \<^verbatim>\<open>temp_replacements.items()\<close>\<close>
  "restore temp_replacements s = replace_all temp_replacements s"

definition m_abs :: matcher where
  \<comment> \<open>\<^verbatim>\<open>\|([^|]+)\|\<close> to \<^verbatim>\<open>Abs(\1)\<close>\<close>
  "m_abs prev s =
     (case s of
        [] \<Rightarrow> None
      | c # rest \<Rightarrow>
          (let inner = takeWhile (\<lambda>d. d \<noteq> 124) rest
           in if c = 124 \<and> inner \<noteq> [] \<and> length inner < length rest
              then Some (ascii ''Abs('' @ inner @ ascii '')'', length inner + 2) else None))"

text \<open>
  \<open>notation_text\<close> is the function up to its last line: the string it hands to the
  engine's parser.
\<close>

definition notation_text :: "unicode_db \<Rightarrow> 'e engine \<Rightarrow> ustring \<Rightarrow> ustring" where
  "notation_text U eng expression =
     (let e1 = eval_numeric_calls eng expression;
          e2 = re_sub (m_power U) e1;
          (temp_replacements, e3) = protect protected_words 0 [] e2;
          e4 = insert_multiplication U e3;
          e5 = restore temp_replacements e4
      in re_sub m_abs e5)"

definition handle_mathematical_notation :: "unicode_db \<Rightarrow> 'e engine \<Rightarrow> ustring \<Rightarrow> 'e option" where
  "handle_mathematical_notation U eng expression =
     parse_expr eng (notation_text U eng expression)"

section \<open>Stage 1: parsing and validation\<close>

datatype input_type = Latex | Mathematical

datatype diagnostic =
    CannotParse ustring
      \<comment> \<open>the \<^verbatim>\<open>ValueError\<close> of \<^verbatim>\<open>parse_mathematical_expression\<close>, with the text it was given\<close>
  | EngineFailure
      \<comment> \<open>the text of any other exception, which the model does not look into\<close>

text \<open>
  \<^verbatim>\<open>detect_input_type\<close>: a backslash before an ASCII letter, or a brace group on one
  line (\<^verbatim>\<open>.\<close> does not match a line feed). The three macro patterns are kept as the
  source lists them.
\<close>

definition is_ascii_letter :: "nat \<Rightarrow> bool" where
  "is_ascii_letter c \<longleftrightarrow> (65 \<le> c \<and> c \<le> 90) \<or> (97 \<le> c \<and> c \<le> 122)"

definition m_latex_command :: "ustring \<Rightarrow> unit option" where
  \<comment> \<open>\<^verbatim>\<open>\\[a-zA-Z]+\<close>\<close>
  "m_latex_command s =
     (case s of c # d # _ \<Rightarrow> if c = 92 \<and> is_ascii_letter d then Some () else None | _ \<Rightarrow> None)"

definition m_brace_group :: "ustring \<Rightarrow> unit option" where
  \<comment> \<open>\<^verbatim>\<open>\{.*\}\<close>\<close>
  "m_brace_group s =
     (case s of
        [] \<Rightarrow> None
      | c # rest \<Rightarrow>
          if c = 123 \<and> 125 \<in> set (takeWhile (\<lambda>d. d \<noteq> 10) rest) then Some () else None)"

definition detect_input_type :: "ustring \<Rightarrow> input_type" where
  "detect_input_type expression =
     (if re_search m_latex_command expression \<noteq> None
         \<or> re_search m_brace_group expression \<noteq> None
         \<or> contains (92 # ascii ''frac'') expression
         \<or> contains (92 # ascii ''sqrt'') expression
         \<or> contains (92 # ascii ''int'') expression
      then Latex else Mathematical)"

text \<open>
  \<^verbatim>\<open>name\(([^,]+),\s*([^)]+)\)\<close>, for \<^verbatim>\<open>integrate\<close> and \<^verbatim>\<open>diff\<close>. The first group is the
  longest run without a comma. After the comma the white space is skipped and the
  second group is the longest run without \<^verbatim>\<open>)\<close>; when that run is empty the pattern
  backtracks and the group is the last white space character.
\<close>

definition m_two_args :: "ustring \<Rightarrow> ustring \<Rightarrow> (ustring \<times> ustring) option" where
  "m_two_args name s =
     (if prefix (name @ ascii ''('') s then
        (let r1 = drop (length name + 1) s;
             a = takeWhile (\<lambda>c. c \<noteq> 44) r1
         in case dropWhile (\<lambda>c. c \<noteq> 44) r1 of
              [] \<Rightarrow> None
            | _ # r3 \<Rightarrow>
                (let w = takeWhile is_space r3;
                     r4 = dropWhile is_space r3;
                     b = takeWhile (\<lambda>c. c \<noteq> 41) r4;
                     r5 = dropWhile (\<lambda>c. c \<noteq> 41) r4
                 in if a = [] \<or> r5 = [] then None
                    else if b \<noteq> [] then Some (a, b)
                    else if w \<noteq> [] then Some (a, [last w])
                    else None))
      else None)"

text \<open>
  \<^verbatim>\<open>parse_mathematical_expression\<close>. Any exception inside becomes the \<^verbatim>\<open>ValueError\<close>
  that names the expression; \<open>None\<close> in the option monad below is that exception.
\<close>

definition construct_call :: "'e engine \<Rightarrow> ('e \<Rightarrow> 'e \<Rightarrow> 'e option) \<Rightarrow> ustring \<times> ustring \<Rightarrow> 'e option" where
  "construct_call eng mk g =
     (case sympify eng (fst g) of
        None \<Rightarrow> None
      | Some func_expr \<Rightarrow>
          (case make_symbol eng (strip (snd g)) of
             None \<Rightarrow> None
           | Some var \<Rightarrow> mk func_expr var))"

definition parse_plain :: "unicode_db \<Rightarrow> 'e engine \<Rightarrow> ustring \<Rightarrow> 'e option" where
  \<comment> \<open>the part after the test for an equals sign\<close>
  "parse_plain U eng expression =
     (let processed = preprocess_text U expression;
          integral = (if contains (ascii ''integrate('') processed
                      then re_search (m_two_args (ascii ''integrate'')) processed else None);
          derivative = (if contains (ascii ''diff('') processed
                        then re_search (m_two_args (ascii ''diff'')) processed else None)
      in case integral of
           Some g \<Rightarrow> construct_call eng (make_integral eng) g
         | None \<Rightarrow>
             (case derivative of
                Some g \<Rightarrow> construct_call eng (make_derivative eng) g
              | None \<Rightarrow> handle_mathematical_notation U eng processed))"

definition parse_equation :: "unicode_db \<Rightarrow> 'e engine \<Rightarrow> ustring \<Rightarrow> ustring \<Rightarrow> 'e option" where
  "parse_equation U eng l r =
     (let left = preprocess_text U (strip l);
          right = preprocess_text U (strip r)
      in case handle_mathematical_notation U eng left of
           None \<Rightarrow> None
         | Some left_expr \<Rightarrow>
             (case handle_mathematical_notation U eng right of
                None \<Rightarrow> None
              | Some right_expr \<Rightarrow> make_eq eng left_expr right_expr))"

definition parse_mathematical_expression :: "unicode_db \<Rightarrow> 'e engine \<Rightarrow> ustring \<Rightarrow> diagnostic + 'e" where
  "parse_mathematical_expression U eng expression =
     (let parsed =
        (if 61 \<in> set expression
            \<and> \<not> (contains (ascii ''<='') expression \<or> contains (ascii ''>='') expression
                  \<or> contains (ascii ''=='') expression)
            \<and> count_list expression 61 = 1
         then parse_equation U eng (takeWhile (\<lambda>c. c \<noteq> 61) expression)
                (drop 1 (dropWhile (\<lambda>c. c \<noteq> 61) expression))
         else parse_plain U eng expression)
      in case parsed of None \<Rightarrow> Inl (CannotParse expression) | Some e \<Rightarrow> Inr e)"

text \<open>
  \<^verbatim>\<open>parse_latex_expression\<close>: the engine's LaTeX parser, and on its failure the
  commands \<^verbatim>\<open>\\[a-zA-Z]+\{([^}]+)\}\<close> cut down to their group, the braces removed and
  the rest parsed as plain notation.
\<close>

definition m_latex_group :: matcher where
  "m_latex_group prev s =
     (case s of
        [] \<Rightarrow> None
      | c # rest \<Rightarrow>
          (let name = takeWhile is_ascii_letter rest;
               r1 = dropWhile is_ascii_letter rest
           in case r1 of
                [] \<Rightarrow> None
              | b # r2 \<Rightarrow>
                  (let g = takeWhile (\<lambda>d. d \<noteq> 125) r2
                   in if c = 92 \<and> name \<noteq> [] \<and> b = 123 \<and> g \<noteq> [] \<and> length g < length r2
                      then Some (g, length name + length g + 3) else None)))"

definition parse_latex_expression :: "unicode_db \<Rightarrow> 'e engine \<Rightarrow> ustring \<Rightarrow> diagnostic + 'e" where
  "parse_latex_expression U eng latex_expr =
     (case parse_latex eng latex_expr of
        Some e \<Rightarrow> Inr e
      | None \<Rightarrow>
          parse_mathematical_expression U eng
            (filter (\<lambda>c. c \<noteq> 123 \<and> c \<noteq> 125) (re_sub m_latex_group latex_expr)))"

definition validate_expression :: "'e engine \<Rightarrow> 'e \<Rightarrow> bool" where
  "validate_expression eng expr =
     (case has_zoo_or_nan eng expr of
        None \<Rightarrow> False
      | Some True \<Rightarrow> False
      | Some False \<Rightarrow> (case simplify eng expr of None \<Rightarrow> False | Some _ \<Rightarrow> True))"

record 'e stage1 =
  s1_success :: bool
  s1_input_type :: "input_type option"
  s1_original_input :: ustring
  s1_preprocessed :: "ustring option"
  s1_parsed_expression :: "'e option"
  s1_validation_result :: bool
  s1_errors :: "diagnostic list"

definition step1_parse_and_validate :: "unicode_db \<Rightarrow> 'e engine \<Rightarrow> ustring \<Rightarrow> 'e stage1" where
  "step1_parse_and_validate U eng user_input =
     (let input_type = detect_input_type user_input;
          result = \<lparr>s1_success = False, s1_input_type = Some input_type,
                    s1_original_input = user_input, s1_preprocessed = None,
                    s1_parsed_expression = None, s1_validation_result = False,
                    s1_errors = []\<rparr>
      in case (if input_type = Latex then parse_latex_expression U eng user_input
               else parse_mathematical_expression U eng user_input) of
           Inl error_msg \<Rightarrow> result\<lparr>s1_errors := [error_msg]\<rparr>
         | Inr expr \<Rightarrow>
             (let validation_result = validate_expression eng expr
              in result\<lparr>s1_parsed_expression := Some expr,
                        s1_preprocessed := Some (str_of eng expr),
                        s1_validation_result := validation_result,
                        s1_success := validation_result\<rparr>))"

section \<open>Stage 2: the candidate simplifier, \<^verbatim>\<open>step2_simplify\<close>\<close>

text \<open>
  \<^verbatim>\<open>steps\<close> is a dictionary, which keeps its keys in the order of their first
  assignment: an association list, updated in place or extended at the end.
\<close>

primrec dict_set :: "'k \<Rightarrow> 'v \<Rightarrow> ('k \<times> 'v) list \<Rightarrow> ('k \<times> 'v) list" where
  "dict_set k v [] = [(k, v)]"
| "dict_set k v (p # ps) = (if fst p = k then (k, v) # ps else p # dict_set k v ps)"

record 'e stage2 =
  s2_success :: bool
  s2_original_expression :: "'e option"
  s2_simplified_expression :: "'e option"
  s2_simplification_steps :: "(ustring \<times> 'e) list"
  s2_errors :: "diagnostic list"

text \<open>
  The two identity fast paths. \<^verbatim>\<open>log\(exp\(([^)]+)\)\)\<close> is the literal, the longest
  run without \<^verbatim>\<open>)\<close> (non-empty), and two closing parentheses.
\<close>

definition m_nested :: "ustring \<Rightarrow> ustring \<Rightarrow> ustring option" where
  "m_nested lit s =
     (if prefix lit s then
        (let rest = drop (length lit) s;
             g = takeWhile (\<lambda>c. c \<noteq> 41) rest
         in if g \<noteq> [] \<and> prefix (ascii ''))'') (drop (length g) rest) then Some g else None)
      else None)"

definition identity_step :: "'e engine \<Rightarrow> ustring \<Rightarrow> ustring \<Rightarrow> ustring
    \<Rightarrow> (ustring \<times> 'e) list \<Rightarrow> (ustring \<times> 'e) list" where
  "identity_step eng key lit expr_str steps =
     (if contains lit expr_str then
        (case re_search (m_nested lit) expr_str of
           None \<Rightarrow> steps
         | Some var_content \<Rightarrow>
             if strip var_content \<noteq> [] then
               (case sympify eng var_content of
                  None \<Rightarrow> steps
                | Some simplified_expr \<Rightarrow> dict_set key simplified_expr steps)
             else steps)
      else steps)"

text \<open>A strategy in its own \<^verbatim>\<open>try\<close>: on an exception the step is the expression itself.\<close>

definition try_step :: "ustring \<Rightarrow> ('e \<Rightarrow> 'e option) \<Rightarrow> 'e
    \<Rightarrow> (ustring \<times> 'e) list \<Rightarrow> (ustring \<times> 'e) list" where
  "try_step key strategy expr steps =
     dict_set key (case strategy expr of Some v \<Rightarrow> v | None \<Rightarrow> expr) steps"

text \<open>
  The logarithmic strategies share one \<^verbatim>\<open>try\<close>: the first exception ends the block
  and keeps the steps assigned before it.
\<close>

definition log_steps :: "'e engine \<Rightarrow> 'e \<Rightarrow> ustring
    \<Rightarrow> (ustring \<times> 'e) list \<Rightarrow> (ustring \<times> 'e) list" where
  "log_steps eng expr expr_str steps =
     (case logcombine eng expr of
        None \<Rightarrow> steps
      | Some a \<Rightarrow>
          (let steps1 = dict_set (ascii ''logsimp'') a steps
           in case powsimp eng expr of
                None \<Rightarrow> steps1
              | Some b \<Rightarrow>
                  (let steps2 = dict_set (ascii ''powersimp'') b steps1
                   in case expand_log eng expr of
                        None \<Rightarrow> steps2
                      | Some c \<Rightarrow>
                          (let steps3 = dict_set (ascii ''expand_log'') c steps2
                           in if contains (ascii ''log(exp('') expr_str then
                                (case replace_log_exp eng expr of
                                   None \<Rightarrow> steps3
                                 | Some d \<Rightarrow> dict_set (ascii ''log_exp_replace'') d steps3)
                              else steps3))))"

definition collect_step :: "'e engine \<Rightarrow> 'e \<Rightarrow> (ustring \<times> 'e) list \<Rightarrow> (ustring \<times> 'e) list" where
  "collect_step eng expr steps =
     (if free_symbols eng expr \<noteq> []
      then try_step (ascii ''collected'') (\<lambda>e. collect eng e (free_symbols eng e)) expr steps
      else steps)"

definition trig_step :: "'e engine \<Rightarrow> 'e \<Rightarrow> ustring
    \<Rightarrow> (ustring \<times> 'e) list \<Rightarrow> (ustring \<times> 'e) list" where
  "trig_step eng expr expr_str steps =
     (if list_ex (\<lambda>func. contains func expr_str)
           (map ascii [''sin'', ''cos'', ''tan'', ''sec'', ''csc'', ''cot''])
      then try_step (ascii ''trigsimp'') (trigsimp eng) expr steps
      else steps)"

definition log_block :: "'e engine \<Rightarrow> 'e \<Rightarrow> ustring
    \<Rightarrow> (ustring \<times> 'e) list \<Rightarrow> (ustring \<times> 'e) list" where
  "log_block eng expr expr_str steps =
     (if list_ex (\<lambda>func. contains func expr_str) (map ascii [''log'', ''exp'', ''ln''])
      then log_steps eng expr expr_str steps
      else steps)"

definition all_steps :: "'e engine \<Rightarrow> 'e \<Rightarrow> (ustring \<times> 'e) list" where
  "all_steps eng expr =
     (let expr_str = str_of eng expr;
          s1 = identity_step eng (ascii ''log_exp_identity'') (ascii ''log(exp('') expr_str [];
          s2 = identity_step eng (ascii ''exp_log_identity'') (ascii ''exp(log('') expr_str s1;
          s3 = try_step (ascii ''basic'') (simplify eng) expr s2;
          s4 = try_step (ascii ''expanded'') (expand eng) expr s3;
          s5 = try_step (ascii ''factored'') (factor eng) expr s4;
          s6 = try_step (ascii ''cancelled'') (cancel eng) expr s5;
          s7 = collect_step eng expr s6;
          s8 = trig_step eng expr expr_str s7
      in log_block eng expr expr_str s8)"

text \<open>The choice of the best result.\<close>

definition priority_steps :: "ustring list" where
  "priority_steps = map ascii [''log_exp_identity'', ''exp_log_identity'', ''log_exp_replace'']"

fun first_named :: "ustring \<Rightarrow> (ustring \<times> 'e) list \<Rightarrow> 'e option" where
  \<comment> \<open>the inner loop, which stops at the first candidate of that name\<close>
  "first_named priority [] = None"
| "first_named priority ((step_name, step_result) # cs) =
     (if step_name = priority then Some step_result else first_named priority cs)"

fun priority_loop :: "'e \<Rightarrow> 'e \<Rightarrow> ustring list \<Rightarrow> (ustring \<times> 'e) list \<Rightarrow> 'e" where
  \<comment> \<open>the outer loop, which stops once the result differs from the expression\<close>
  "priority_loop expr result [] candidates = result"
| "priority_loop expr result (priority # ps) candidates =
     (let result' = (case first_named priority candidates of
                       Some step_result \<Rightarrow> step_result | None \<Rightarrow> result)
      in if result' \<noteq> expr then result' else priority_loop expr result' ps candidates)"

definition ops_metric :: "'e engine \<Rightarrow> 'e \<Rightarrow> nat" where
  \<comment> \<open>\<^verbatim>\<open>sp.count_ops\<close>, and the length of the text when it raises\<close>
  "ops_metric eng step_result =
     (case count_ops eng step_result of
        Some ops_count \<Rightarrow> ops_count
      | None \<Rightarrow> length (str_of eng step_result))"

fun min_by_key :: "nat \<times> 'e \<Rightarrow> (nat \<times> 'e) list \<Rightarrow> nat \<times> 'e" where
  \<comment> \<open>\<^verbatim>\<open>min(..., key=lambda x: x[0])\<close>: a later item wins only with a smaller key\<close>
  "min_by_key best [] = best"
| "min_by_key best (x # xs) = min_by_key (if fst x < fst best then x else best) xs"

text \<open>
  The candidates: the steps that differ from the expression. A step is an object of
  the engine, so the test \<^verbatim>\<open>step_result is not None\<close> always holds.
\<close>

definition candidates_of :: "'e \<Rightarrow> (ustring \<times> 'e) list \<Rightarrow> (ustring \<times> 'e) list" where
  "candidates_of expr steps = filter (\<lambda>(step_name, step_result). step_result \<noteq> expr) steps"

definition choose_best :: "'e engine \<Rightarrow> 'e \<Rightarrow> (ustring \<times> 'e) list \<Rightarrow> 'e" where
  "choose_best eng expr candidates =
     (if candidates = [] then expr
      else
        (let result = priority_loop expr expr priority_steps candidates
         in if result = expr then
              (case map (\<lambda>(step_name, step_result). (ops_metric eng step_result, step_result))
                      candidates of
                 [] \<Rightarrow> expr
               | v # vs \<Rightarrow> snd (min_by_key v vs))
            else result))"

text \<open>
  \<^verbatim>\<open>step2_simplify\<close>. On \<^verbatim>\<open>None\<close> the four strategies before \<^verbatim>\<open>expr.free_symbols\<close>
  are caught one by one, and the attribute read raises into the outer handler.
\<close>

definition step2_simplify :: "'e engine \<Rightarrow> 'e option \<Rightarrow> 'e stage2" where
  "step2_simplify eng x =
     (case x of
        None \<Rightarrow>
          \<lparr>s2_success = False, s2_original_expression = None,
           s2_simplified_expression = None, s2_simplification_steps = [],
           s2_errors = [EngineFailure]\<rparr>
      | Some expr \<Rightarrow>
          if is_Derivative eng expr \<or> is_Integral eng expr then
            \<lparr>s2_success = True, s2_original_expression = Some expr,
             s2_simplified_expression = Some expr, s2_simplification_steps = [],
             s2_errors = []\<rparr>
          else
            (let steps = all_steps eng expr
             in \<lparr>s2_success = True, s2_original_expression = Some expr,
                 s2_simplified_expression =
                   Some (choose_best eng expr (candidates_of expr steps)),
                 s2_simplification_steps =
                   filter (\<lambda>(k, v). v \<noteq> expr \<and> str_of eng v \<noteq> str_of eng expr) steps,
                 s2_errors = []\<rparr>))"

section \<open>Stage 3: the problem classifier, \<^verbatim>\<open>step3_solve\<close>\<close>

datatype problem_type =
  Derivative | Integral | Equation | Inequality | NumericalEvaluation | Simplification
  | EquationZero

record 'e stage3 =
  s3_success :: bool
  s3_problem_type :: "problem_type option"
  s3_solutions :: "'e option"
  s3_errors :: "diagnostic list"

text \<open>
  The body of the \<^verbatim>\<open>try\<close> gives the problem type assigned so far and, unless an
  exception ended it, the solutions (which stay \<^verbatim>\<open>None\<close> for an inequality that
  does not have exactly one free symbol).
\<close>

definition raised :: "'e option \<Rightarrow> 'e option option" where
  "raised r = map_option Some r"

definition resimplify :: "'e engine \<Rightarrow> 'e \<Rightarrow> 'e option" where
  "resimplify eng expr =
     (case simplify eng expr of
        None \<Rightarrow> None
      | Some simplified \<Rightarrow>
          if contains (ascii ''log'') (str_of eng expr) \<or> contains (ascii ''exp'') (str_of eng expr)
          then
            (case logcombine eng expr of
               None \<Rightarrow> None
             | Some combined \<Rightarrow>
                 (case powsimp eng combined of
                    None \<Rightarrow> None
                  | Some log_simplified \<Rightarrow>
                      (case (count_ops eng log_simplified, count_ops eng simplified) of
                         (Some n1, Some n2) \<Rightarrow>
                           Some (if n1 < n2 then log_simplified else simplified)
                       | _ \<Rightarrow> None)))
          else Some simplified)"

definition expression_simplified :: "'e engine \<Rightarrow> 'e \<Rightarrow> 'e \<Rightarrow> bool option" where
  "expression_simplified eng expr simplified =
     (if simplified = expr then Some False
      else
        (case (count_ops eng simplified, count_ops eng expr) of
           (Some n1, Some n2) \<Rightarrow>
             Some (n1 < n2 \<or> str_of eng simplified \<noteq> str_of eng expr)
         | _ \<Rightarrow> None))"

definition solve_body :: "'e engine \<Rightarrow> 'e \<Rightarrow> problem_type option \<times> 'e option option" where
  "solve_body eng expr =
     (let fs = free_symbols eng expr
      in if is_Derivative eng expr then (Some Derivative, raised (doit eng expr))
         else if is_Integral eng expr then (Some Integral, raised (doit eng expr))
         else if is_Eq eng expr then (Some Equation, raised (solve_all eng expr fs))
         else if contains (ascii ''>'') (str_of eng expr) \<or> contains (ascii ''<'') (str_of eng expr)
         then
           (Some Inequality,
            if length fs = 1 then
              (case solve_univariate_inequality eng expr (hd fs) of
                 Some r \<Rightarrow> Some (Some r)
               | None \<Rightarrow> raised (solve_var eng expr (hd fs)))
            else Some None)
         else if fs = [] then (Some NumericalEvaluation, raised (evalf eng expr))
         else
           (case resimplify eng expr of
              None \<Rightarrow> (None, None)
            | Some simplified \<Rightarrow>
                (let is_simple_variable =
                       (length fs = 1 \<and> length (strip (str_of eng expr)) \<le> 3
                        \<and> str_of eng expr \<in> set (map (str_of eng) fs)
                        \<and> is_Symbol eng expr)
                 in case expression_simplified eng expr simplified of
                      None \<Rightarrow> (None, None)
                    | Some simpler \<Rightarrow>
                        if is_simple_variable then (Some Simplification, Some (Some expr))
                        else if simpler then (Some Simplification, Some (Some simplified))
                        else
                          (Some EquationZero,
                           raised (if length fs = 1 then solve_var eng expr (hd fs)
                                   else solve_all eng expr fs)))))"

definition step3_solve :: "'e engine \<Rightarrow> 'e option \<Rightarrow> 'e stage3" where
  "step3_solve eng x =
     (case x of
        None \<Rightarrow>
          (case simplify_of_None eng of
             None \<Rightarrow>
               \<lparr>s3_success = False, s3_problem_type = None, s3_solutions = None,
                s3_errors = [EngineFailure]\<rparr>
           | Some v \<Rightarrow>
               \<lparr>s3_success = True, s3_problem_type = Some Simplification, s3_solutions = v,
                s3_errors = [EngineFailure]\<rparr>)
      | Some expr \<Rightarrow>
          (case solve_body eng expr of
             (pt, Some solutions) \<Rightarrow>
               \<lparr>s3_success = True, s3_problem_type = pt, s3_solutions = solutions,
                s3_errors = []\<rparr>
           | (pt, None) \<Rightarrow>
               (case simplify eng expr of
                  Some v \<Rightarrow>
                    \<lparr>s3_success = True, s3_problem_type = Some Simplification,
                     s3_solutions = Some v, s3_errors = [EngineFailure]\<rparr>
                | None \<Rightarrow>
                    \<lparr>s3_success = False, s3_problem_type = pt, s3_solutions = None,
                     s3_errors = [EngineFailure]\<rparr>)))"

section \<open>Stage 4: the output formatter, \<^verbatim>\<open>step4_format_output\<close>\<close>

record stage4 =
  s4_success :: bool
  numerical_output :: "ustring option"
  latex_output :: "ustring option"
  pretty_output :: "ustring option"
  s4_errors :: "diagnostic list"

fun join :: "ustring \<Rightarrow> ustring list \<Rightarrow> ustring" where
  "join sep [] = []"
| "join sep [x] = x"
| "join sep (x # y # ys) = x @ sep @ join sep (y # ys)"

definition latex_or_str :: "'e engine \<Rightarrow> 'e \<Rightarrow> ustring" where
  "latex_or_str eng sol = (case latex eng sol of Some l \<Rightarrow> l | None \<Rightarrow> str_of eng sol)"

definition step4_format_output :: "'e engine \<Rightarrow> 'e option \<Rightarrow> problem_type option \<Rightarrow> stage4" where
  "step4_format_output eng solutions problem_type =
     (case solutions of
        None \<Rightarrow>
          \<lparr>s4_success = False, numerical_output = None, latex_output = None,
           pretty_output = None, s4_errors = []\<rparr>
      | Some sol \<Rightarrow>
          (case (if has_evalf eng sol then map_option (str_of eng) (evalf eng sol)
                 else Some (str_of eng sol)) of
             None \<Rightarrow>
               \<lparr>s4_success = False, numerical_output = None, latex_output = None,
                pretty_output = None, s4_errors = [EngineFailure]\<rparr>
           | Some num \<Rightarrow>
               \<lparr>s4_success = True, numerical_output = Some num,
                latex_output =
                  Some (if is_plain_iterable eng sol
                        then join (ascii '', '') (map (latex_or_str eng) (elements eng sol))
                        else latex_or_str eng sol),
                pretty_output =
                  Some (case pretty eng sol of Some p \<Rightarrow> p | None \<Rightarrow> str_of eng sol),
                s4_errors = []\<rparr>))"

section \<open>The pipeline: \<^verbatim>\<open>process_user_input\<close>\<close>

text \<open>
  Printing and the optional assistant change nothing in the value returned, and are
  left out. Every stage catches its own exceptions, so the outer handler of
  \<^verbatim>\<open>process_user_input\<close> is never entered by the stages.
\<close>

datatype 'e stage =
  Parsed "'e stage1" | Simplified "'e stage2" | Solved "'e stage3" | Formatted stage4

record 'e final_result =
  f_success :: bool
  f_original_input :: ustring
  f_stages :: "'e stage list"
  f_final_answer :: "stage4 option"
  f_problem_type :: "problem_type option"

definition process_user_input :: "unicode_db \<Rightarrow> 'e engine \<Rightarrow> ustring \<Rightarrow> bool \<Rightarrow> 'e final_result" where
  "process_user_input U eng user_input show_steps =
     (let stage1 = step1_parse_and_validate U eng user_input;
          final_result = \<lparr>f_success = False, f_original_input = user_input,
                          f_stages = [Parsed stage1], f_final_answer = None,
                          f_problem_type = None\<rparr>
      in if show_steps \<and> \<not> s1_success stage1 then final_result
         else
           (let stage2 = step2_simplify eng (s1_parsed_expression stage1);
                stage3 = step3_solve eng (s2_simplified_expression stage2);
                stage4 = step4_format_output eng (s3_solutions stage3) (s3_problem_type stage3)
            in final_result
                 \<lparr>f_stages := [Parsed stage1, Simplified stage2, Solved stage3, Formatted stage4],
                  f_problem_type := s3_problem_type stage3,
                  f_final_answer := Some stage4,
                  f_success := True\<rparr>))"

section \<open>Instances for the examples\<close>

text \<open>
  A Unicode table for the examples: the Russian letters U+0410 to U+044F are
  alphanumeric, as they are in Unicode, and it lists nothing else above U+00FF.
\<close>

definition russian_db :: unicode_db where
  "russian_db = \<lparr>uni_alnum = (\<lambda>c. 1040 \<le> c \<and> c \<le> 1103), uni_decimal = (\<lambda>c. False)\<rparr>"

text \<open>
  A stand-in engine whose expressions are texts: it parses a text with balanced
  parentheses to itself, and its strategies change nothing. It only shows that the
  hypotheses of the theorems below can hold together.
\<close>

definition all_digits :: "ustring \<Rightarrow> bool" where
  "all_digits e \<longleftrightarrow> e \<noteq> [] \<and> list_all (\<lambda>c. 48 \<le> c \<and> c \<le> 57) e"

definition text_engine :: "ustring engine" where
  "text_engine =
     \<lparr>sympify = (\<lambda>s. if s = [] then None else Some s),
      parse_expr = (\<lambda>s. if s \<noteq> [] \<and> count_list s 40 = count_list s 41 then Some s else None),
      parse_latex = (\<lambda>s. None),
      str_of = (\<lambda>e. e),
      is_number = all_digits,
      free_symbols = (\<lambda>e. if list_ex is_ascii_letter e then [e] else []),
      call_function = (\<lambda>name v. Some (name @ ascii ''('' @ v @ ascii '')'')),
      make_symbol = (\<lambda>s. if s = [] then None else Some s),
      make_eq = (\<lambda>l r. Some (ascii ''Eq('' @ l @ ascii '', '' @ r @ ascii '')'')),
      make_integral = (\<lambda>f v. Some (ascii ''Integral('' @ f @ ascii '', '' @ v @ ascii '')'')),
      make_derivative = (\<lambda>f v. Some (ascii ''Derivative('' @ f @ ascii '', '' @ v @ ascii '')'')),
      has_zoo_or_nan = (\<lambda>e. Some (contains (ascii ''zoo'') e \<or> contains (ascii ''nan'') e)),
      is_Derivative = prefix (ascii ''Derivative(''),
      is_Integral = prefix (ascii ''Integral(''),
      is_Eq = prefix (ascii ''Eq(''),
      is_Symbol = (\<lambda>e. e \<noteq> [] \<and> list_all is_letter_us e),
      simplify = Some,
      simplify_of_None = None,
      expand = Some,
      factor = Some,
      cancel = Some,
      collect = (\<lambda>e vs. Some e),
      trigsimp = Some,
      logcombine = Some,
      powsimp = Some,
      expand_log = Some,
      replace_log_exp = Some,
      count_ops = (\<lambda>e. Some (length (filter (\<lambda>c. c \<in> set (ascii ''+-*/'')) e))),
      doit = (\<lambda>e. Some (ascii ''doit('' @ e @ ascii '')'')),
      evalf = Some,
      solve_var = (\<lambda>e v. Some (ascii ''solve('' @ e @ ascii '')'')),
      solve_all = (\<lambda>e vs. Some (ascii ''solve('' @ e @ ascii '')'')),
      solve_univariate_inequality = (\<lambda>e v. Some (ascii ''solve('' @ e @ ascii '')'')),
      has_evalf = (\<lambda>e. True),
      is_plain_iterable = (\<lambda>e. False),
      elements = (\<lambda>e. []),
      latex = Some,
      pretty = Some\<rparr>"

text \<open>Two variants: one whose individually guarded strategies all raise, and one whose
  generic simplification rewrites every expression to another text.\<close>

definition failing_engine :: "ustring engine" where
  "failing_engine =
     text_engine\<lparr>simplify := (\<lambda>e. None), expand := (\<lambda>e. None), factor := (\<lambda>e. None),
       cancel := (\<lambda>e. None), collect := (\<lambda>e vs. None), trigsimp := (\<lambda>e. None)\<rparr>"

definition rewriting_engine :: "ustring engine" where
  "rewriting_engine = text_engine\<lparr>simplify := (\<lambda>e. Some (ascii ''x + 0''))\<rparr>"

text \<open>Two dictionaries of steps for the selection: one without a priority name and
  with a tie, one with two priority names.\<close>

definition example_steps :: "(ustring \<times> ustring) list" where
  "example_steps =
     [(ascii ''basic'', ascii ''a+b+c''), (ascii ''expanded'', ascii ''a+b''),
      (ascii ''factored'', ascii ''b+a''), (ascii ''cancelled'', ascii ''(a+b)'')]"

definition example_steps_priority :: "(ustring \<times> ustring) list" where
  "example_steps_priority =
     [(ascii ''exp_log_identity'', ascii ''y''), (ascii ''basic'', ascii ''(a+b)''),
      (ascii ''expanded'', ascii ''b''), (ascii ''log_exp_replace'', ascii ''x'')]"

section \<open>Word runs and white space\<close>

text \<open>
  Notions for the proof that the normalizer is idempotent. \<open>map_words isw f\<close> rewrites
  every maximal run of word characters with \<open>f\<close>, and \<open>all_words isw P\<close> says that
  every such run satisfies \<open>P\<close>. \<open>ws_ok True\<close> holds of a non-empty text whose white
  space is single blanks between other characters. \<open>alias_of\<close> is the table of aliases
  applied to one word, \<open>sigma\<close> the table of operator signs applied to one character,
  and a word is \<open>marked\<close> when it holds a \<^verbatim>\<open>q\<close> or \<^verbatim>\<open>oo\<close>, which no alias does.
\<close>

function map_words :: "(nat \<Rightarrow> bool) \<Rightarrow> (ustring \<Rightarrow> ustring) \<Rightarrow> ustring \<Rightarrow> ustring" where
  "map_words isw f [] = []"
| "map_words isw f (c # cs) =
     (if isw c then f (c # takeWhile isw cs) @ map_words isw f (dropWhile isw cs)
      else c # map_words isw f cs)"
  by pat_completeness auto
termination
  by (relation "measure (\<lambda>(isw, f, s). length s)")
    (auto simp: length_dropWhile_le less_Suc_eq_le)

function all_words :: "(nat \<Rightarrow> bool) \<Rightarrow> (ustring \<Rightarrow> bool) \<Rightarrow> ustring \<Rightarrow> bool" where
  "all_words isw P [] = True"
| "all_words isw P (c # cs) =
     (if isw c then P (c # takeWhile isw cs) \<and> all_words isw P (dropWhile isw cs)
      else all_words isw P cs)"
  by pat_completeness auto
termination
  by (relation "measure (\<lambda>(isw, P, s). length s)")
    (auto simp: length_dropWhile_le less_Suc_eq_le)

fun ws_ok :: "bool \<Rightarrow> ustring \<Rightarrow> bool" where
  "ws_ok b [] = (\<not> b)"
| "ws_ok b (c # cs) = (if is_space c then \<not> b \<and> c = 32 \<and> ws_ok True cs else ws_ok False cs)"

definition starts_word :: "(nat \<Rightarrow> bool) \<Rightarrow> ustring \<Rightarrow> bool" where
  "starts_word isw s = (case s of [] \<Rightarrow> False | c # _ \<Rightarrow> isw c)"

definition word_before :: "(nat \<Rightarrow> bool) \<Rightarrow> nat option \<Rightarrow> bool" where
  "word_before isw prev = (case prev of None \<Rightarrow> False | Some p \<Rightarrow> isw p)"

definition marked :: "ustring \<Rightarrow> bool" where
  "marked x \<longleftrightarrow> 113 \<in> set x \<or> contains (ascii ''oo'') x"

definition alias_of :: "ustring \<Rightarrow> ustring" where
  "alias_of x = foldl (\<lambda>y (w, r). if y = w then r else y) x function_aliases"

definition sigma :: "nat \<Rightarrow> ustring" where
  "sigma c = (if c = 94 then ascii ''**'' else if c = 8730 then ascii ''sqrt''
     else if c = 8734 then ascii ''oo'' else if c = 177 then ascii ''+/-''
     else if c = 215 then ascii ''*'' else if c = 247 then ascii ''/'' else [c])"

section \<open>Evaluation\<close>

lemmas char_classes = is_space_def is_letter_us_def is_digit_def latin1_alnum_def is_word_def
  is_ascii_letter_def

lemmas normalizer_defs = preprocess_text_def replace_all_def replace_aliases_def re_sub_def
  m_word_def m_spaces_def strip_def py_replace_def m_literal_def at_boundary_def ascii_def
  function_aliases_def cyrillic_replacements_def symbol_replacements_def

lemmas resolver_defs = notation_text_def eval_numeric_calls_def eager_functions_def m_call_def
  replace_func_def m_power_def protected_words_def temp_marker_def digits_of.simps
  insert_multiplication_def m_digit_letter_def m_letter_digit_def m_digit_paren_def
  m_paren_letter_def m_paren_digit_def restore_def m_abs_def

section \<open>The notation resolver on protected identifiers\<close>

text \<open>
  C1 (the code departs from the claim). The claim: a protected identifier next to a
  digit or a parenthesis is not split, \<^verbatim>\<open>2sin(x)\<close> resolves to \<^verbatim>\<open>2*sin(x)\<close>, and every
  placeholder is restored. The code: the marker \<^verbatim>\<open>__TEMP_0__\<close> has a digit between
  underscores, which the first two multiplication rules take for a digit next to a
  letter. The marker becomes \<^verbatim>\<open>__TEMP_*0*__\<close>, the restoring loop no longer finds it,
  and the parser is handed a text in which \<^verbatim>\<open>sin\<close> does not occur. The engine is only
  asked about the argument \<^verbatim>\<open>x\<close>, which is not a number.
\<close>

theorem resolver_loses_protected_word:
  assumes "sympify eng (ascii ''x'') = Some v"
    and "\<not> is_number eng v"
    and "free_symbols eng v \<noteq> []"
  shows "notation_text U eng (ascii ''2sin(x)'') = ascii ''2*__TEMP_*0*__(x)''
     \<and> \<not> contains (ascii ''sin'') (notation_text U eng (ascii ''2sin(x)''))
     \<and> handle_mathematical_notation U eng (ascii ''2sin(x)'')
         = parse_expr eng (ascii ''2*__TEMP_*0*__(x)'')"
proof -
  have t: "notation_text U eng (ascii ''2sin(x)'') = ascii ''2*__TEMP_*0*__(x)''"
    using assms by (simp add: resolver_defs normalizer_defs char_classes)
  have c: "\<not> contains (ascii ''sin'') (ascii ''2*__TEMP_*0*__(x)'')"
    by (simp add: ascii_def)
  show ?thesis
    using t c by (simp add: handle_mathematical_notation_def)
qed

theorem resolver_loses_protected_word_witness:
  "sympify text_engine (ascii ''x'') = Some (ascii ''x'')
   \<and> \<not> is_number text_engine (ascii ''x'')
   \<and> free_symbols text_engine (ascii ''x'') \<noteq> []
   \<and> notation_text russian_db text_engine (ascii ''2sin(x)'') = ascii ''2*__TEMP_*0*__(x)''"
proof -
  have a: "sympify text_engine (ascii ''x'') = Some (ascii ''x'')"
    by (simp add: text_engine_def ascii_def)
  have b: "\<not> is_number text_engine (ascii ''x'')"
    by (simp add: text_engine_def ascii_def all_digits_def)
  have c: "free_symbols text_engine (ascii ''x'') \<noteq> []"
    by (simp add: text_engine_def ascii_def is_ascii_letter_def)
  show ?thesis
    using resolver_loses_protected_word [OF a b c, of russian_db] a b c by simp
qed

section \<open>The power-call shorthand in the pipeline\<close>

text \<open>
  C2 (the code departs from the claim). The claim: \<^verbatim>\<open>name^digits(args)\<close> is rewritten
  to \<^verbatim>\<open>name(args)\<close> to that power, so that \<^verbatim>\<open>sin^2(x) + cos^2(x)\<close> classifies as a
  simplification with solution 1. The code: \<^verbatim>\<open>preprocess_text\<close> has already turned
  \<^verbatim>\<open>^\<close> into \<^verbatim>\<open>**\<close> when the rule for the shorthand runs, so the rule finds nothing;
  the markers for \<^verbatim>\<open>sin\<close> and \<^verbatim>\<open>cos\<close> are then broken as in C1. Whatever the engine,
  stage 1 yields what its parser makes of a text without \<^verbatim>\<open>sin\<close> and \<^verbatim>\<open>cos\<close>.
\<close>

theorem power_shorthand_not_rewritten:
  "preprocess_text U (ascii ''sin^2(x) + cos^2(x)'') = ascii ''sin**2(x) + cos**2(x)''
   \<and> notation_text U eng (ascii ''sin**2(x) + cos**2(x)'')
       = ascii ''__TEMP_*0*__**2*(x) + __TEMP_*1*__**2*(x)''
   \<and> \<not> contains (ascii ''sin'') (ascii ''__TEMP_*0*__**2*(x) + __TEMP_*1*__**2*(x)'')
   \<and> \<not> contains (ascii ''cos'') (ascii ''__TEMP_*0*__**2*(x) + __TEMP_*1*__**2*(x)'')
   \<and> s1_parsed_expression (step1_parse_and_validate U eng (ascii ''sin^2(x) + cos^2(x)''))
       = parse_expr eng (ascii ''__TEMP_*0*__**2*(x) + __TEMP_*1*__**2*(x)'')"
proof -
  let ?input = "ascii ''sin^2(x) + cos^2(x)''"
  let ?mangled = "ascii ''__TEMP_*0*__**2*(x) + __TEMP_*1*__**2*(x)''"
  have p: "preprocess_text U ?input = ascii ''sin**2(x) + cos**2(x)''"
    by (simp add: normalizer_defs char_classes)
  have n: "notation_text U eng (ascii ''sin**2(x) + cos**2(x)'') = ?mangled"
    by (simp add: resolver_defs normalizer_defs char_classes)
  have i: "\<not> contains (ascii ''integrate('') (ascii ''sin**2(x) + cos**2(x)'')"
    by (simp add: ascii_def)
  have d: "\<not> contains (ascii ''diff('') (ascii ''sin**2(x) + cos**2(x)'')"
    by (simp add: ascii_def)
  have e: "61 \<notin> set ?input"
    by (simp add: ascii_def)
  have "parse_plain U eng ?input = parse_expr eng ?mangled"
    unfolding parse_plain_def handle_mathematical_notation_def p using i d n by simp
  then have m: "parse_mathematical_expression U eng ?input
      = (case parse_expr eng ?mangled of
           None \<Rightarrow> Inl (CannotParse ?input) | Some e \<Rightarrow> Inr e)"
    using e by (simp add: parse_mathematical_expression_def)
  have t: "detect_input_type ?input = Mathematical"
    by (simp add: detect_input_type_def m_latex_command_def m_brace_group_def ascii_def)
  have "s1_parsed_expression (step1_parse_and_validate U eng ?input) = parse_expr eng ?mangled"
    unfolding step1_parse_and_validate_def t m
    by (cases "parse_expr eng ?mangled") (simp_all add: Let_def)
  moreover have "\<not> contains (ascii ''sin'') ?mangled" "\<not> contains (ascii ''cos'') ?mangled"
    by (simp_all add: ascii_def)
  ultimately show ?thesis
    using p n by simp
qed

section \<open>Function aliases and word boundaries\<close>

text \<open>
  C3 (corrected). The claim: aliases are rewritten at word boundaries before any
  multiplication is inserted, \<^verbatim>\<open>lg(100)\<close> becomes an application of \<^verbatim>\<open>log10\<close>, and
  \<^verbatim>\<open>lnx\<close> becomes \<^verbatim>\<open>log(x)\<close>. The last part fails: in \<^verbatim>\<open>lnx\<close> no word boundary follows
  \<^verbatim>\<open>ln\<close>, so \<^verbatim>\<open>\bln\b\<close> does not match and the normalizer returns \<^verbatim>\<open>lnx\<close>; the
  resolver does not produce \<^verbatim>\<open>log(x)\<close> from it either.
\<close>

theorem lnx_not_rewritten_counterexample:
  "preprocess_text russian_db (ascii ''lnx'') = ascii ''lnx''
   \<and> notation_text russian_db text_engine (preprocess_text russian_db (ascii ''lnx''))
       \<noteq> ascii ''log(x)''"
proof -
  have p: "preprocess_text russian_db (ascii ''lnx'') = ascii ''lnx''"
    by (simp add: normalizer_defs char_classes)
  have "notation_text russian_db text_engine (ascii ''lnx'') = ascii ''__TEMP_*0*__x''"
    by (simp add: resolver_defs normalizer_defs char_classes)
  then show ?thesis
    using p by (simp add: ascii_def)
qed

text \<open>
  C3 as amended: aliases are rewritten by the normalizer, which runs before the
  resolver inserts any multiplication, and only where the alias stands between two
  word boundaries. \<^verbatim>\<open>lg(100)\<close> becomes \<^verbatim>\<open>log10(100)\<close>, \<^verbatim>\<open>ln(x)\<close> becomes \<^verbatim>\<open>log(x)\<close> and
  \<^verbatim>\<open>ln x\<close> becomes \<^verbatim>\<open>log x\<close>; \<^verbatim>\<open>lnx\<close> is left as it is.
\<close>

theorem aliases_rewritten_at_word_boundaries:
  "preprocess_text U (ascii ''lg(100)'') = ascii ''log10(100)''
   \<and> preprocess_text U (ascii ''ln(x)'') = ascii ''log(x)''
   \<and> preprocess_text U (ascii ''ln x'') = ascii ''log x''
   \<and> preprocess_text U (ascii ''lnx'') = ascii ''lnx''
   \<and> parse_plain U eng (ascii ''lg(100)'')
       = handle_mathematical_notation U eng (ascii ''log10(100)'')
   \<and> parse_plain U eng (ascii ''ln(x)'')
       = handle_mathematical_notation U eng (ascii ''log(x)'')"
proof -
  have a: "preprocess_text U (ascii ''lg(100)'') = ascii ''log10(100)''"
    by (simp add: normalizer_defs char_classes)
  have b: "preprocess_text U (ascii ''ln(x)'') = ascii ''log(x)''"
    by (simp add: normalizer_defs char_classes)
  have c: "preprocess_text U (ascii ''ln x'') = ascii ''log x''"
    by (simp add: normalizer_defs char_classes)
  have d: "preprocess_text U (ascii ''lnx'') = ascii ''lnx''"
    by (simp add: normalizer_defs char_classes)
  have e: "parse_plain U eng (ascii ''lg(100)'')
      = handle_mathematical_notation U eng (ascii ''log10(100)'')"
    unfolding parse_plain_def a by (simp add: ascii_def)
  have f: "parse_plain U eng (ascii ''ln(x)'')
      = handle_mathematical_notation U eng (ascii ''log(x)'')"
    unfolding parse_plain_def b by (simp add: ascii_def)
  show ?thesis
    using a b c d e f by simp
qed

section \<open>The output formatter without a solution\<close>

text \<open>
  C10. Called with \<^verbatim>\<open>None\<close> for the solutions, the formatter returns a failed result
  whose numerical, LaTeX and pretty outputs are all \<^verbatim>\<open>None\<close>, and records no error.
\<close>

theorem format_output_of_None:
  "step4_format_output eng None problem_type =
     \<lparr>s4_success = False, numerical_output = None, latex_output = None,
      pretty_output = None, s4_errors = []\<rparr>"
  by (simp add: step4_format_output_def)

section \<open>Stage 2: the steps dictionary\<close>


lemma dict_set_entries:
  "(k, v) \<in> set (dict_set k' v' d) \<Longrightarrow> (k = k' \<and> v = v') \<or> (k, v) \<in> set d"
  by (induction d) (auto split: if_splits)

lemma dict_set_keys:
  "map fst (dict_set k v d) = (if k \<in> fst ` set d then map fst d else map fst d @ [k])"
  by (induction d) auto

lemma dict_set_distinct:
  "distinct (map fst d) \<Longrightarrow> distinct (map fst (dict_set k v d))"
  by (auto simp: dict_set_keys)

lemma try_step_entries:
  "(k, v) \<in> set (try_step key f e d) \<Longrightarrow>
     (k = key \<and> v = (case f e of Some r \<Rightarrow> r | None \<Rightarrow> e)) \<or> (k, v) \<in> set d"
  unfolding try_step_def by (rule dict_set_entries)

lemma identity_step_entries:
  "(k, v) \<in> set (identity_step eng key lit s d) \<Longrightarrow> k = key \<or> (k, v) \<in> set d"
  unfolding identity_step_def
  by (auto split: if_splits option.splits dest: dict_set_entries)

lemma collect_step_entries:
  "(k, v) \<in> set (collect_step eng e d) \<Longrightarrow>
     (k = ascii ''collected''
        \<and> v = (case collect eng e (free_symbols eng e) of Some r \<Rightarrow> r | None \<Rightarrow> e))
     \<or> (k, v) \<in> set d"
  unfolding collect_step_def by (auto split: if_splits dest: try_step_entries)

lemma trig_step_entries:
  "(k, v) \<in> set (trig_step eng e s d) \<Longrightarrow>
     (k = ascii ''trigsimp'' \<and> v = (case trigsimp eng e of Some r \<Rightarrow> r | None \<Rightarrow> e))
     \<or> (k, v) \<in> set d"
  unfolding trig_step_def by (auto split: if_splits dest: try_step_entries)

lemma log_steps_entries:
  "(k, v) \<in> set (log_steps eng e s d) \<Longrightarrow>
     k \<in> {ascii ''logsimp'', ascii ''powersimp'', ascii ''expand_log'', ascii ''log_exp_replace''}
     \<or> (k, v) \<in> set d"
  unfolding log_steps_def Let_def
  by (auto split: if_splits option.splits dest!: dict_set_entries)

lemma log_block_entries:
  "(k, v) \<in> set (log_block eng e s d) \<Longrightarrow>
     k \<in> {ascii ''logsimp'', ascii ''powersimp'', ascii ''expand_log'', ascii ''log_exp_replace''}
     \<or> (k, v) \<in> set d"
  unfolding log_block_def by (auto split: if_splits dest: log_steps_entries)

lemma all_steps_entries:
  assumes kv: "(k, v) \<in> set (all_steps eng e)"
  shows "k = ascii ''log_exp_identity'' \<or> k = ascii ''exp_log_identity''
    \<or> (k = ascii ''basic'' \<and> v = (case simplify eng e of Some r \<Rightarrow> r | None \<Rightarrow> e))
    \<or> (k = ascii ''expanded'' \<and> v = (case expand eng e of Some r \<Rightarrow> r | None \<Rightarrow> e))
    \<or> (k = ascii ''factored'' \<and> v = (case factor eng e of Some r \<Rightarrow> r | None \<Rightarrow> e))
    \<or> (k = ascii ''cancelled'' \<and> v = (case cancel eng e of Some r \<Rightarrow> r | None \<Rightarrow> e))
    \<or> (k = ascii ''collected''
         \<and> v = (case collect eng e (free_symbols eng e) of Some r \<Rightarrow> r | None \<Rightarrow> e))
    \<or> (k = ascii ''trigsimp'' \<and> v = (case trigsimp eng e of Some r \<Rightarrow> r | None \<Rightarrow> e))
    \<or> k \<in> {ascii ''logsimp'', ascii ''powersimp'', ascii ''expand_log'',
             ascii ''log_exp_replace''}"
    (is "?I1 \<or> ?I2 \<or> ?B \<or> ?E \<or> ?F \<or> ?C \<or> ?Co \<or> ?T \<or> ?L")
proof -
  define s1 where "s1 = identity_step eng (ascii ''log_exp_identity'') (ascii ''log(exp('')
                          (str_of eng e) []"
  define s2 where "s2 = identity_step eng (ascii ''exp_log_identity'') (ascii ''exp(log('')
                          (str_of eng e) s1"
  define s3 where "s3 = try_step (ascii ''basic'') (simplify eng) e s2"
  define s4 where "s4 = try_step (ascii ''expanded'') (expand eng) e s3"
  define s5 where "s5 = try_step (ascii ''factored'') (factor eng) e s4"
  define s6 where "s6 = try_step (ascii ''cancelled'') (cancel eng) e s5"
  define s7 where "s7 = collect_step eng e s6"
  define s8 where "s8 = trig_step eng e (str_of eng e) s7"
  have a: "all_steps eng e = log_block eng e (str_of eng e) s8"
    unfolding all_steps_def Let_def s1_def s2_def s3_def s4_def s5_def s6_def s7_def s8_def ..
  have 1: "?I1" if "(k, v) \<in> set s1"
    using that unfolding s1_def by (auto dest: identity_step_entries)
  have 2: "?I1 \<or> ?I2" if "(k, v) \<in> set s2"
    using that 1 unfolding s2_def by (auto dest: identity_step_entries)
  have 3: "?I1 \<or> ?I2 \<or> ?B" if "(k, v) \<in> set s3"
    using try_step_entries [OF that [unfolded s3_def]] 2 by blast
  have 4: "?I1 \<or> ?I2 \<or> ?B \<or> ?E" if "(k, v) \<in> set s4"
    using try_step_entries [OF that [unfolded s4_def]] 3 by blast
  have 5: "?I1 \<or> ?I2 \<or> ?B \<or> ?E \<or> ?F" if "(k, v) \<in> set s5"
    using try_step_entries [OF that [unfolded s5_def]] 4 by blast
  have 6: "?I1 \<or> ?I2 \<or> ?B \<or> ?E \<or> ?F \<or> ?C" if "(k, v) \<in> set s6"
    using try_step_entries [OF that [unfolded s6_def]] 5 by blast
  have 7: "?I1 \<or> ?I2 \<or> ?B \<or> ?E \<or> ?F \<or> ?C \<or> ?Co" if "(k, v) \<in> set s7"
    using collect_step_entries [OF that [unfolded s7_def]] 6 by blast
  have 8: "?I1 \<or> ?I2 \<or> ?B \<or> ?E \<or> ?F \<or> ?C \<or> ?Co \<or> ?T" if "(k, v) \<in> set s8"
    using trig_step_entries [OF that [unfolded s8_def]] 7 by blast
  from kv have "?L \<or> (k, v) \<in> set s8"
    unfolding a by (rule log_block_entries)
  then show ?thesis
    using 8 by blast
qed

subsection \<open>Keys stay distinct\<close>

lemma try_step_distinct:
  "distinct (map fst d) \<Longrightarrow> distinct (map fst (try_step key f e d))"
  unfolding try_step_def by (rule dict_set_distinct)

lemma identity_step_distinct:
  "distinct (map fst d) \<Longrightarrow> distinct (map fst (identity_step eng key lit s d))"
  unfolding identity_step_def by (simp add: dict_set_distinct split: option.splits)

lemma collect_step_distinct:
  "distinct (map fst d) \<Longrightarrow> distinct (map fst (collect_step eng e d))"
  unfolding collect_step_def by (simp add: try_step_distinct)

lemma trig_step_distinct:
  "distinct (map fst d) \<Longrightarrow> distinct (map fst (trig_step eng e s d))"
  unfolding trig_step_def by (simp add: try_step_distinct)

lemma log_steps_distinct:
  "distinct (map fst d) \<Longrightarrow> distinct (map fst (log_steps eng e s d))"
  unfolding log_steps_def Let_def
  by (simp add: dict_set_distinct split: option.splits)

lemma log_block_distinct:
  "distinct (map fst d) \<Longrightarrow> distinct (map fst (log_block eng e s d))"
  unfolding log_block_def by (simp add: log_steps_distinct)

lemma all_steps_distinct: "distinct (map fst (all_steps eng e))"
  unfolding all_steps_def Let_def
  by (intro log_block_distinct trig_step_distinct collect_step_distinct try_step_distinct
        identity_step_distinct) simp

subsection \<open>The first entry stays first\<close>

lemma try_step_keeps_head:
  "fst p \<noteq> key \<Longrightarrow> \<exists>ps'. try_step key f e (p # ps) = p # ps'"
  by (simp add: try_step_def)

lemma identity_step_keeps_head:
  "fst p \<noteq> key \<Longrightarrow> \<exists>ps'. identity_step eng key lit s (p # ps) = p # ps'"
  by (simp add: identity_step_def split: option.splits)

lemma collect_step_keeps_head:
  "fst p \<noteq> ascii ''collected'' \<Longrightarrow> \<exists>ps'. collect_step eng e (p # ps) = p # ps'"
  by (simp add: collect_step_def try_step_def)

lemma trig_step_keeps_head:
  "fst p \<noteq> ascii ''trigsimp'' \<Longrightarrow> \<exists>ps'. trig_step eng e s (p # ps) = p # ps'"
  by (simp add: trig_step_def try_step_def)

lemma log_block_keeps_head:
  assumes "fst p \<notin> {ascii ''logsimp'', ascii ''powersimp'', ascii ''expand_log'',
                     ascii ''log_exp_replace''}"
  shows "\<exists>ps'. log_block eng e s (p # ps) = p # ps'"
  using assms by (simp add: log_block_def log_steps_def Let_def split: option.splits)

section \<open>Strategy failures\<close>

lemma candidates_of_entries:
  "(k, v) \<in> set (candidates_of e d) \<longleftrightarrow> (k, v) \<in> set d \<and> v \<noteq> e"
  by (auto simp: candidates_of_def)

text \<open>
  C8. A strategy that raises never aborts the candidate simplifier: for every engine and
  every expression the call succeeds, records no error and returns an expression, and
  a strategy that raised leaves no candidate under its name (its step is the input
  itself, which the selection discards).
\<close>

theorem strategy_failure_is_absorbed:
  "s2_success (step2_simplify eng (Some e))
   \<and> s2_errors (step2_simplify eng (Some e)) = []
   \<and> s2_simplified_expression (step2_simplify eng (Some e)) \<noteq> None
   \<and> (simplify eng e = None \<longrightarrow>
        ascii ''basic'' \<notin> fst ` set (candidates_of e (all_steps eng e)))
   \<and> (expand eng e = None \<longrightarrow>
        ascii ''expanded'' \<notin> fst ` set (candidates_of e (all_steps eng e)))
   \<and> (factor eng e = None \<longrightarrow>
        ascii ''factored'' \<notin> fst ` set (candidates_of e (all_steps eng e)))
   \<and> (cancel eng e = None \<longrightarrow>
        ascii ''cancelled'' \<notin> fst ` set (candidates_of e (all_steps eng e)))
   \<and> (collect eng e (free_symbols eng e) = None \<longrightarrow>
        ascii ''collected'' \<notin> fst ` set (candidates_of e (all_steps eng e)))
   \<and> (trigsimp eng e = None \<longrightarrow>
        ascii ''trigsimp'' \<notin> fst ` set (candidates_of e (all_steps eng e)))"
proof -
  have ok: "s2_success (step2_simplify eng (Some e))
      \<and> s2_errors (step2_simplify eng (Some e)) = []
      \<and> s2_simplified_expression (step2_simplify eng (Some e)) \<noteq> None"
    by (simp add: step2_simplify_def Let_def)
  have absent: "k \<notin> fst ` set (candidates_of e (all_steps eng e))"
    if "\<And>v. (k, v) \<in> set (all_steps eng e) \<Longrightarrow> v = e" for k
    using that by (auto simp: candidates_of_entries)
  have b: "simplify eng e = None \<Longrightarrow> (ascii ''basic'', v) \<in> set (all_steps eng e) \<Longrightarrow> v = e" for v
    by (drule all_steps_entries) (simp add: ascii_def)
  have x: "expand eng e = None \<Longrightarrow> (ascii ''expanded'', v) \<in> set (all_steps eng e) \<Longrightarrow> v = e" for v
    by (drule all_steps_entries) (simp add: ascii_def)
  have f: "factor eng e = None \<Longrightarrow> (ascii ''factored'', v) \<in> set (all_steps eng e) \<Longrightarrow> v = e" for v
    by (drule all_steps_entries) (simp add: ascii_def)
  have c: "cancel eng e = None \<Longrightarrow> (ascii ''cancelled'', v) \<in> set (all_steps eng e) \<Longrightarrow> v = e" for v
    by (drule all_steps_entries) (simp add: ascii_def)
  have co: "collect eng e (free_symbols eng e) = None \<Longrightarrow>
      (ascii ''collected'', v) \<in> set (all_steps eng e) \<Longrightarrow> v = e" for v
    by (drule all_steps_entries) (simp add: ascii_def)
  have t: "trigsimp eng e = None \<Longrightarrow> (ascii ''trigsimp'', v) \<in> set (all_steps eng e) \<Longrightarrow> v = e" for v
    by (drule all_steps_entries) (simp add: ascii_def)
  show ?thesis
    using ok absent [of "ascii ''basic''"] absent [of "ascii ''expanded''"]
      absent [of "ascii ''factored''"] absent [of "ascii ''cancelled''"]
      absent [of "ascii ''collected''"] absent [of "ascii ''trigsimp''"] b x f c co t
    by blast
qed

theorem strategy_failure_is_absorbed_witness:
  "trigsimp failing_engine (ascii ''sin(x)'') = None
   \<and> simplify failing_engine (ascii ''sin(x)'') = None
   \<and> s2_success (step2_simplify failing_engine (Some (ascii ''sin(x)'')))
   \<and> s2_simplified_expression (step2_simplify failing_engine (Some (ascii ''sin(x)''))) \<noteq> None
   \<and> ascii ''trigsimp''
        \<notin> fst ` set (candidates_of (ascii ''sin(x)'') (all_steps failing_engine (ascii ''sin(x)'')))
   \<and> ascii ''basic''
        \<notin> fst ` set (candidates_of (ascii ''sin(x)'') (all_steps failing_engine (ascii ''sin(x)'')))"
proof -
  have a: "trigsimp failing_engine (ascii ''sin(x)'') = None"
    by (simp add: failing_engine_def)
  have b: "simplify failing_engine (ascii ''sin(x)'') = None"
    by (simp add: failing_engine_def)
  show ?thesis
    using strategy_failure_is_absorbed [of failing_engine "ascii ''sin(x)''"] a b by simp
qed

section \<open>The identity fast path\<close>

lemma identity_found:
  assumes "str_of eng e = ascii ''log(exp(x))''" and "sympify eng (ascii ''x'') = Some x"
  shows "identity_step eng (ascii ''log_exp_identity'') (ascii ''log(exp('') (str_of eng e) []
     = [(ascii ''log_exp_identity'', x)]"
proof -
  have c: "contains (ascii ''log(exp('') (ascii ''log(exp(x))'')"
    by (simp add: ascii_def)
  have m: "re_search (m_nested (ascii ''log(exp('')) (ascii ''log(exp(x))'') = Some (ascii ''x'')"
    by (simp add: m_nested_def ascii_def)
  have s: "strip (ascii ''x'') \<noteq> []"
    by (simp add: strip_def ascii_def is_space_def)
  show ?thesis
    unfolding identity_step_def assms(1) using c m s assms(2) by simp
qed

lemma all_steps_head:
  assumes "str_of eng e = ascii ''log(exp(x))''" and "sympify eng (ascii ''x'') = Some x"
  shows "\<exists>rest. all_steps eng e = (ascii ''log_exp_identity'', x) # rest"
proof -
  let ?p = "(ascii ''log_exp_identity'', x)"
  define s1 where "s1 = identity_step eng (ascii ''log_exp_identity'') (ascii ''log(exp('')
                          (str_of eng e) []"
  define s2 where "s2 = identity_step eng (ascii ''exp_log_identity'') (ascii ''exp(log('')
                          (str_of eng e) s1"
  define s3 where "s3 = try_step (ascii ''basic'') (simplify eng) e s2"
  define s4 where "s4 = try_step (ascii ''expanded'') (expand eng) e s3"
  define s5 where "s5 = try_step (ascii ''factored'') (factor eng) e s4"
  define s6 where "s6 = try_step (ascii ''cancelled'') (cancel eng) e s5"
  define s7 where "s7 = collect_step eng e s6"
  define s8 where "s8 = trig_step eng e (str_of eng e) s7"
  have a: "all_steps eng e = log_block eng e (str_of eng e) s8"
    unfolding all_steps_def Let_def s1_def s2_def s3_def s4_def s5_def s6_def s7_def s8_def ..
  have 1: "s1 = [?p]"
    unfolding s1_def by (rule identity_found [OF assms])
  have "\<exists>ps'. s2 = ?p # ps'"
    unfolding s2_def 1 by (rule identity_step_keeps_head) (simp add: ascii_def)
  then obtain r2 where 2: "s2 = ?p # r2" by blast
  have "\<exists>ps'. s3 = ?p # ps'"
    unfolding s3_def 2 by (rule try_step_keeps_head) (simp add: ascii_def)
  then obtain r3 where 3: "s3 = ?p # r3" by blast
  have "\<exists>ps'. s4 = ?p # ps'"
    unfolding s4_def 3 by (rule try_step_keeps_head) (simp add: ascii_def)
  then obtain r4 where 4: "s4 = ?p # r4" by blast
  have "\<exists>ps'. s5 = ?p # ps'"
    unfolding s5_def 4 by (rule try_step_keeps_head) (simp add: ascii_def)
  then obtain r5 where 5: "s5 = ?p # r5" by blast
  have "\<exists>ps'. s6 = ?p # ps'"
    unfolding s6_def 5 by (rule try_step_keeps_head) (simp add: ascii_def)
  then obtain r6 where 6: "s6 = ?p # r6" by blast
  have "\<exists>ps'. s7 = ?p # ps'"
    unfolding s7_def 6 by (rule collect_step_keeps_head) (simp add: ascii_def)
  then obtain r7 where 7: "s7 = ?p # r7" by blast
  have "\<exists>ps'. s8 = ?p # ps'"
    unfolding s8_def 7 by (rule trig_step_keeps_head) (simp add: ascii_def)
  then obtain r8 where 8: "s8 = ?p # r8" by blast
  show ?thesis
    unfolding a 8 by (rule log_block_keeps_head) (simp add: ascii_def)
qed

text \<open>
  C4. For an expression whose text is \<^verbatim>\<open>log(exp(x))\<close>, the fast path parses the
  inner text \<^verbatim>\<open>x\<close> and records it first, under \<^verbatim>\<open>log_exp_identity\<close>; the selection
  returns exactly that symbol, whatever the other strategies produce.
\<close>

theorem log_exp_identity_has_priority:
  assumes "\<not> is_Derivative eng e" and "\<not> is_Integral eng e"
    and "str_of eng e = ascii ''log(exp(x))''"
    and "sympify eng (ascii ''x'') = Some x"
    and "x \<noteq> e"
  shows "s2_simplified_expression (step2_simplify eng (Some e)) = Some x
     \<and> s2_success (step2_simplify eng (Some e))
     \<and> hd (all_steps eng e) = (ascii ''log_exp_identity'', x)"
proof -
  obtain rest where r: "all_steps eng e = (ascii ''log_exp_identity'', x) # rest"
    using all_steps_head [OF assms(3,4)] by blast
  have c: "candidates_of e (all_steps eng e)
      = (ascii ''log_exp_identity'', x) # candidates_of e rest"
    unfolding r using assms(5) by (simp add: candidates_of_def)
  have "choose_best eng e (candidates_of e (all_steps eng e)) = x"
    unfolding c using assms(5) by (simp add: choose_best_def priority_steps_def Let_def)
  then show ?thesis
    using assms(1,2) r by (simp add: step2_simplify_def Let_def)
qed

theorem log_exp_identity_has_priority_witness:
  "simplify rewriting_engine (ascii ''log(exp(x))'') = Some (ascii ''x + 0'')
   \<and> s2_simplified_expression (step2_simplify rewriting_engine (Some (ascii ''log(exp(x))'')))
       = Some (ascii ''x'')
   \<and> s2_success (step2_simplify rewriting_engine (Some (ascii ''log(exp(x))'')))"
proof -
  have 1: "\<not> is_Derivative rewriting_engine (ascii ''log(exp(x))'')"
    by (simp add: rewriting_engine_def text_engine_def ascii_def)
  have 2: "\<not> is_Integral rewriting_engine (ascii ''log(exp(x))'')"
    by (simp add: rewriting_engine_def text_engine_def ascii_def)
  have 3: "str_of rewriting_engine (ascii ''log(exp(x))'') = ascii ''log(exp(x))''"
    by (simp add: rewriting_engine_def text_engine_def)
  have 4: "sympify rewriting_engine (ascii ''x'') = Some (ascii ''x'')"
    by (simp add: rewriting_engine_def text_engine_def ascii_def)
  have 5: "ascii ''x'' \<noteq> ascii ''log(exp(x))''"
    by (simp add: ascii_def)
  have 6: "simplify rewriting_engine (ascii ''log(exp(x))'') = Some (ascii ''x + 0'')"
    by (simp add: rewriting_engine_def text_engine_def)
  show ?thesis
    using log_exp_identity_has_priority [OF 1 2 3 4 5] 6 by simp
qed

section \<open>The selection of the best candidate\<close>

lemma min_by_key_first_minimum:
  "\<exists>ys zs. b # xs = ys @ min_by_key b xs # zs
     \<and> (\<forall>y \<in> set ys. fst (min_by_key b xs) < fst y)
     \<and> (\<forall>z \<in> set zs. fst (min_by_key b xs) \<le> fst z)"
proof (induction xs arbitrary: b)
  case Nil
  show ?case by (intro exI [of _ "[]"]) simp
next
  case (Cons x xs)
  define b' where "b' = (if fst x < fst b then x else b)"
  define m where "m = min_by_key b' xs"
  have mm: "min_by_key b (x # xs) = m"
    by (simp add: m_def b'_def)
  obtain ys zs where s: "b' # xs = ys @ m # zs"
    and lt: "\<forall>y \<in> set ys. fst m < fst y"
    and le: "\<forall>z \<in> set zs. fst m \<le> fst z"
    using Cons.IH [of b'] unfolding m_def by blast
  have mle: "fst m \<le> fst b'"
  proof (cases ys)
    case Nil
    with s show ?thesis by simp
  next
    case (Cons y ys')
    with s have "y = b'" by simp
    with lt Cons show ?thesis by simp
  qed
  show ?case
  proof (cases "fst x < fst b")
    case True
    then have bx: "b' = x" by (simp add: b'_def)
    have "b # x # xs = (b # ys) @ m # zs" using s bx by simp
    moreover have "\<forall>y \<in> set (b # ys). fst m < fst y"
      using lt mle True bx by auto
    ultimately show ?thesis
      unfolding mm using le by blast
  next
    case False
    then have bb: "b' = b" by (simp add: b'_def)
    show ?thesis
    proof (cases ys)
      case Nil
      with s bb have m: "m = b" and z: "zs = xs" by simp_all
      have "b # x # xs = [] @ m # (x # xs)" using m by simp
      moreover have "\<forall>z \<in> set (x # xs). fst m \<le> fst z"
        using le z m False by auto
      moreover have "\<forall>y \<in> set ([] :: (nat \<times> 'a) list). fst m < fst y" by simp
      ultimately show ?thesis
        unfolding mm by blast
    next
      case (Cons y ys')
      with s bb have y: "y = b" and xs: "xs = ys' @ m # zs" by simp_all
      have mb: "fst m < fst b" using lt Cons y by simp
      have "b # x # xs = (b # x # ys') @ m # zs" using xs by simp
      moreover have "\<forall>y \<in> set (b # x # ys'). fst m < fst y"
        using lt Cons mb False by auto
      ultimately show ?thesis
        unfolding mm using le by blast
    qed
  qed
qed

lemma first_named_None:
  "first_named p cs = None \<longleftrightarrow> p \<notin> fst ` set cs"
  by (induction cs) (auto split: if_splits)

lemma first_named_distinct:
  "distinct (map fst cs) \<Longrightarrow> (k, r) \<in> set cs \<Longrightarrow> first_named k cs = Some r"
  by (induction cs) (auto simp: rev_image_eqI)

lemma candidates_distinct:
  "distinct (map fst steps) \<Longrightarrow> distinct (map fst (candidates_of e steps))"
  by (simp add: candidates_of_def distinct_map_filter)

lemma priority_loop_found:
  assumes "first_named k1 cs = Some r \<or> (first_named k1 cs = None \<and> first_named k2 cs = Some r)
      \<or> (first_named k1 cs = None \<and> first_named k2 cs = None \<and> first_named k3 cs = Some r)"
    and "r \<noteq> e"
  shows "priority_loop e e [k1, k2, k3] cs = r"
  using assms by (auto simp: Let_def)

lemma choose_best_priority:
  assumes "first_named (ascii ''log_exp_identity'') cs = Some r
      \<or> (first_named (ascii ''log_exp_identity'') cs = None
          \<and> first_named (ascii ''exp_log_identity'') cs = Some r)
      \<or> (first_named (ascii ''log_exp_identity'') cs = None
          \<and> first_named (ascii ''exp_log_identity'') cs = None
          \<and> first_named (ascii ''log_exp_replace'') cs = Some r)"
    and "r \<noteq> e"
  shows "choose_best eng e cs = r"
proof -
  have "cs \<noteq> []"
    using assms(1) by auto
  moreover have "priority_loop e e priority_steps cs = r"
    unfolding priority_steps_def using priority_loop_found [OF _ assms(2)] assms(1) by simp
  ultimately show ?thesis
    using assms(2) by (simp add: choose_best_def Let_def)
qed

lemma choose_best_fewest:
  assumes n: "first_named (ascii ''log_exp_identity'') cs = None"
      "first_named (ascii ''exp_log_identity'') cs = None"
      "first_named (ascii ''log_exp_replace'') cs = None"
    and ne: "cs \<noteq> []"
  shows "\<exists>ys n r zs. cs = ys @ (n, r) # zs \<and> choose_best eng e cs = r
     \<and> (\<forall>(n', r') \<in> set ys. ops_metric eng r < ops_metric eng r')
     \<and> (\<forall>(n', r') \<in> set zs. ops_metric eng r \<le> ops_metric eng r')"
proof -
  define f where "f = (\<lambda>(step_name :: ustring, step_result). (ops_metric eng step_result, step_result))"
  obtain c cs' where cs: "cs = c # cs'"
    using ne by (cases cs) auto
  define m where "m = min_by_key (f c) (map f cs')"
  have p: "priority_loop e e priority_steps cs = e"
    using n by (simp add: priority_steps_def Let_def)
  have ch: "choose_best eng e cs = snd m"
    unfolding choose_best_def p using ne cs by (simp add: Let_def m_def f_def)
  obtain ys' zs' where s: "f c # map f cs' = ys' @ m # zs'"
    and lt: "\<forall>y \<in> set ys'. fst m < fst y"
    and le: "\<forall>z \<in> set zs'. fst m \<le> fst z"
    using min_by_key_first_minimum [of "f c" "map f cs'"] unfolding m_def by blast
  from s have "map f cs = ys' @ m # zs'"
    using cs by simp
  then obtain ys x zs where sp: "cs = ys @ x # zs" and ys: "map f ys = ys'"
    and x: "f x = m" and zs: "map f zs = zs'"
    by (auto simp: map_eq_append_conv map_eq_Cons_conv)
  obtain n r where nr: "x = (n, r)"
    by (cases x)
  have m: "m = (ops_metric eng r, r)"
    using x nr by (simp add: f_def)
  have a: "\<forall>(n', r') \<in> set ys. ops_metric eng r < ops_metric eng r'"
  proof clarify
    fix n' r'
    assume "(n', r') \<in> set ys"
    then have "f (n', r') \<in> set ys'"
      using ys by auto
    with lt have "fst m < fst (f (n', r'))"
      by blast
    then show "ops_metric eng r < ops_metric eng r'"
      using m by (simp add: f_def)
  qed
  have b: "\<forall>(n', r') \<in> set zs. ops_metric eng r \<le> ops_metric eng r'"
  proof clarify
    fix n' r'
    assume "(n', r') \<in> set zs"
    then have "f (n', r') \<in> set zs'"
      using zs by auto
    with le have "fst m \<le> fst (f (n', r'))"
      by blast
    then show "ops_metric eng r \<le> ops_metric eng r'"
      using m by (simp add: f_def)
  qed
  show ?thesis
    using sp nr ch m a b by auto
qed

text \<open>
  C5. The selection of the simplifier, for a dictionary of steps (its keys are
  distinct). The candidates are the steps that differ from the input, in the order of
  the dictionary. Without a candidate the input is returned. A candidate named
  \<^verbatim>\<open>log_exp_identity\<close> is chosen; without one, a candidate named \<^verbatim>\<open>exp_log_identity\<close>;
  without that, one named \<^verbatim>\<open>log_exp_replace\<close>. Otherwise the chosen candidate has the
  fewest operations, every candidate before it having strictly more: a tie goes to
  the candidate produced first. The count is \<^verbatim>\<open>sp.count_ops\<close> wherever that returns.
  The steps of \<^verbatim>\<open>step2_simplify\<close> are such a dictionary, and its result is this choice.
\<close>

theorem selection_policy:
  assumes "distinct (map fst steps)"
  shows "set (candidates_of expr steps) = {(n, r). (n, r) \<in> set steps \<and> r \<noteq> expr}
   \<and> (candidates_of expr steps = [] \<longrightarrow>
        choose_best eng expr (candidates_of expr steps) = expr)
   \<and> (\<forall>r. (ascii ''log_exp_identity'', r) \<in> set (candidates_of expr steps) \<longrightarrow>
        choose_best eng expr (candidates_of expr steps) = r)
   \<and> (\<forall>r. ascii ''log_exp_identity'' \<notin> fst ` set (candidates_of expr steps)
          \<and> (ascii ''exp_log_identity'', r) \<in> set (candidates_of expr steps) \<longrightarrow>
        choose_best eng expr (candidates_of expr steps) = r)
   \<and> (\<forall>r. ascii ''log_exp_identity'' \<notin> fst ` set (candidates_of expr steps)
          \<and> ascii ''exp_log_identity'' \<notin> fst ` set (candidates_of expr steps)
          \<and> (ascii ''log_exp_replace'', r) \<in> set (candidates_of expr steps) \<longrightarrow>
        choose_best eng expr (candidates_of expr steps) = r)
   \<and> (ascii ''log_exp_identity'' \<notin> fst ` set (candidates_of expr steps)
        \<and> ascii ''exp_log_identity'' \<notin> fst ` set (candidates_of expr steps)
        \<and> ascii ''log_exp_replace'' \<notin> fst ` set (candidates_of expr steps)
        \<and> candidates_of expr steps \<noteq> [] \<longrightarrow>
        (\<exists>ys n r zs. candidates_of expr steps = ys @ (n, r) # zs
           \<and> choose_best eng expr (candidates_of expr steps) = r
           \<and> (\<forall>(n', r') \<in> set ys. ops_metric eng r < ops_metric eng r')
           \<and> (\<forall>(n', r') \<in> set zs. ops_metric eng r \<le> ops_metric eng r')))
   \<and> (\<forall>r n. count_ops eng r = Some n \<longrightarrow> ops_metric eng r = n)
   \<and> distinct (map fst (all_steps eng expr))
   \<and> (\<not> is_Derivative eng expr \<and> \<not> is_Integral eng expr \<longrightarrow>
        s2_simplified_expression (step2_simplify eng (Some expr))
          = Some (choose_best eng expr (candidates_of expr (all_steps eng expr))))"
proof -
  let ?S = "candidates_of expr steps"
  have d: "distinct (map fst ?S)"
    using assms by (rule candidates_distinct)
  have ne: "r \<noteq> expr" if "(k, r) \<in> set ?S" for k r
    using that by (simp add: candidates_of_entries)
  have fn: "first_named k ?S = Some r" if "(k, r) \<in> set ?S" for k r
    using d that by (rule first_named_distinct)
  have 1: "set ?S = {(n, r). (n, r) \<in> set steps \<and> r \<noteq> expr}"
    by (auto simp: candidates_of_def)
  have 2: "?S = [] \<longrightarrow> choose_best eng expr ?S = expr"
    by (simp add: choose_best_def)
  have 3: "\<forall>r. (ascii ''log_exp_identity'', r) \<in> set ?S \<longrightarrow> choose_best eng expr ?S = r"
    using choose_best_priority [of ?S _ expr eng] fn ne by blast
  have 4: "\<forall>r. ascii ''log_exp_identity'' \<notin> fst ` set ?S
          \<and> (ascii ''exp_log_identity'', r) \<in> set ?S \<longrightarrow> choose_best eng expr ?S = r"
    using choose_best_priority [of ?S _ expr eng] fn ne
    unfolding first_named_None [symmetric] by blast
  have 5: "\<forall>r. ascii ''log_exp_identity'' \<notin> fst ` set ?S
          \<and> ascii ''exp_log_identity'' \<notin> fst ` set ?S
          \<and> (ascii ''log_exp_replace'', r) \<in> set ?S \<longrightarrow> choose_best eng expr ?S = r"
    using choose_best_priority [of ?S _ expr eng] fn ne
    unfolding first_named_None [symmetric] by blast
  have 6: "ascii ''log_exp_identity'' \<notin> fst ` set ?S
        \<and> ascii ''exp_log_identity'' \<notin> fst ` set ?S
        \<and> ascii ''log_exp_replace'' \<notin> fst ` set ?S \<and> ?S \<noteq> [] \<longrightarrow>
        (\<exists>ys n r zs. ?S = ys @ (n, r) # zs \<and> choose_best eng expr ?S = r
           \<and> (\<forall>(n', r') \<in> set ys. ops_metric eng r < ops_metric eng r')
           \<and> (\<forall>(n', r') \<in> set zs. ops_metric eng r \<le> ops_metric eng r'))"
    unfolding first_named_None [symmetric] using choose_best_fewest [of ?S eng expr] by blast
  have 7: "\<forall>r n. count_ops eng r = Some n \<longrightarrow> ops_metric eng r = n"
    by (simp add: ops_metric_def)
  have 8: "\<not> is_Derivative eng expr \<and> \<not> is_Integral eng expr \<longrightarrow>
        s2_simplified_expression (step2_simplify eng (Some expr))
          = Some (choose_best eng expr (candidates_of expr (all_steps eng expr)))"
    by (simp add: step2_simplify_def Let_def)
  show ?thesis
    using 1 2 3 4 5 6 7 8 all_steps_distinct [of eng expr] by blast
qed

theorem selection_policy_witness:
  "distinct (map fst example_steps_priority)
   \<and> choose_best text_engine (ascii ''(a+b)'')
        (candidates_of (ascii ''(a+b)'') example_steps_priority) = ascii ''y''
   \<and> distinct (map fst example_steps)
   \<and> (\<exists>ys n r zs. candidates_of (ascii ''(a+b)'') example_steps = ys @ (n, r) # zs
        \<and> choose_best text_engine (ascii ''(a+b)'')
             (candidates_of (ascii ''(a+b)'') example_steps) = r
        \<and> (\<forall>(n', r') \<in> set ys. ops_metric text_engine r < ops_metric text_engine r')
        \<and> (\<forall>(n', r') \<in> set zs. ops_metric text_engine r \<le> ops_metric text_engine r'))
   \<and> choose_best text_engine (ascii ''(a+b)'')
        (candidates_of (ascii ''(a+b)'') example_steps) = ascii ''a+b''"
proof -
  let ?e = "ascii ''(a+b)''"
  have d1: "distinct (map fst example_steps_priority)"
    by (simp add: example_steps_priority_def ascii_def)
  have d2: "distinct (map fst example_steps)"
    by (simp add: example_steps_def ascii_def)
  have c1: "candidates_of ?e example_steps_priority =
      [(ascii ''exp_log_identity'', ascii ''y''), (ascii ''expanded'', ascii ''b''),
       (ascii ''log_exp_replace'', ascii ''x'')]"
    by (simp add: candidates_of_def example_steps_priority_def ascii_def)
  have c2: "candidates_of ?e example_steps =
      [(ascii ''basic'', ascii ''a+b+c''), (ascii ''expanded'', ascii ''a+b''),
       (ascii ''factored'', ascii ''b+a'')]"
    by (simp add: candidates_of_def example_steps_def ascii_def)
  have a: "choose_best text_engine ?e (candidates_of ?e example_steps_priority) = ascii ''y''"
    using selection_policy [OF d1, of ?e text_engine] unfolding c1 by (simp add: ascii_def)
  have b: "\<exists>ys n r zs. candidates_of ?e example_steps = ys @ (n, r) # zs
        \<and> choose_best text_engine ?e (candidates_of ?e example_steps) = r
        \<and> (\<forall>(n', r') \<in> set ys. ops_metric text_engine r < ops_metric text_engine r')
        \<and> (\<forall>(n', r') \<in> set zs. ops_metric text_engine r \<le> ops_metric text_engine r')"
    using selection_policy [OF d2, of ?e text_engine] unfolding c2 by (simp add: ascii_def)
  have c: "choose_best text_engine ?e (candidates_of ?e example_steps) = ascii ''a+b''"
    unfolding c2
    by (simp add: choose_best_def priority_steps_def Let_def ops_metric_def text_engine_def
          ascii_def)
  show ?thesis
    using d1 d2 a b c by blast
qed

section \<open>Derivatives and integrals\<close>

text \<open>
  C6. An expression tagged Derivative or Integral leaves the simplification stage as
  it came: the result is the expression itself with an empty trace, whatever the
  engine's strategies would do, so none of them has a part in it. The pipeline hands
  that same expression to the solve stage, whose answer is the explicit evaluation
  \<^verbatim>\<open>expr.doit()\<close>.
\<close>

theorem derivative_integral_pass_unsimplified:
  assumes "is_Derivative eng e \<or> is_Integral eng e"
  shows "step2_simplify eng (Some e) =
       \<lparr>s2_success = True, s2_original_expression = Some e,
        s2_simplified_expression = Some e, s2_simplification_steps = [], s2_errors = []\<rparr>
   \<and> (\<forall>v. doit eng e = Some v \<longrightarrow>
        step3_solve eng (s2_simplified_expression (step2_simplify eng (Some e))) =
          \<lparr>s3_success = True,
           s3_problem_type = Some (if is_Derivative eng e then Derivative else Integral),
           s3_solutions = Some v, s3_errors = []\<rparr>)
   \<and> (\<forall>U user_input show_steps.
        s1_parsed_expression (step1_parse_and_validate U eng user_input) = Some e
        \<and> s1_success (step1_parse_and_validate U eng user_input) \<longrightarrow>
        f_stages (process_user_input U eng user_input show_steps) =
          [Parsed (step1_parse_and_validate U eng user_input),
           Simplified \<lparr>s2_success = True, s2_original_expression = Some e,
                       s2_simplified_expression = Some e, s2_simplification_steps = [],
                       s2_errors = []\<rparr>,
           Solved (step3_solve eng (Some e)),
           Formatted (step4_format_output eng (s3_solutions (step3_solve eng (Some e)))
                        (s3_problem_type (step3_solve eng (Some e))))])"
proof -
  have 2: "step2_simplify eng (Some e) =
       \<lparr>s2_success = True, s2_original_expression = Some e,
        s2_simplified_expression = Some e, s2_simplification_steps = [], s2_errors = []\<rparr>"
    using assms by (simp add: step2_simplify_def)
  have 3: "step3_solve eng (Some e) =
          \<lparr>s3_success = True,
           s3_problem_type = Some (if is_Derivative eng e then Derivative else Integral),
           s3_solutions = Some v, s3_errors = []\<rparr>" if "doit eng e = Some v" for v
    using assms that by (auto simp: step3_solve_def solve_body_def raised_def Let_def)
  have p: "f_stages (process_user_input U eng user_input show_steps) =
          [Parsed (step1_parse_and_validate U eng user_input),
           Simplified (step2_simplify eng (Some e)),
           Solved (step3_solve eng (Some e)),
           Formatted (step4_format_output eng (s3_solutions (step3_solve eng (Some e)))
                        (s3_problem_type (step3_solve eng (Some e))))]"
    if "s1_parsed_expression (step1_parse_and_validate U eng user_input) = Some e"
      and "s1_success (step1_parse_and_validate U eng user_input)"
    for U user_input show_steps
    using that by (simp add: process_user_input_def Let_def 2)
  show ?thesis
    using 2 3 p by simp
qed

theorem derivative_integral_pass_unsimplified_witness:
  "is_Derivative text_engine (ascii ''Derivative(x**3, x)'')
   \<and> doit text_engine (ascii ''Derivative(x**3, x)'') = Some (ascii ''doit(Derivative(x**3, x))'')
   \<and> s1_parsed_expression (step1_parse_and_validate russian_db text_engine (ascii ''diff(x^3, x)''))
        = Some (ascii ''Derivative(x**3, x)'')
   \<and> s1_success (step1_parse_and_validate russian_db text_engine (ascii ''diff(x^3, x)''))
   \<and> step2_simplify text_engine (Some (ascii ''Derivative(x**3, x)'')) =
       \<lparr>s2_success = True, s2_original_expression = Some (ascii ''Derivative(x**3, x)''),
        s2_simplified_expression = Some (ascii ''Derivative(x**3, x)''),
        s2_simplification_steps = [], s2_errors = []\<rparr>
   \<and> step3_solve text_engine
        (s2_simplified_expression (step2_simplify text_engine (Some (ascii ''Derivative(x**3, x)''))))
       = \<lparr>s3_success = True, s3_problem_type = Some Derivative,
          s3_solutions = Some (ascii ''doit(Derivative(x**3, x))''), s3_errors = []\<rparr>
   \<and> length (f_stages (process_user_input russian_db text_engine (ascii ''diff(x^3, x)'') True)) = 4"
proof -
  let ?e = "ascii ''Derivative(x**3, x)''"
  let ?s = "ascii ''diff(x^3, x)''"
  have d: "is_Derivative text_engine ?e"
    by (simp add: text_engine_def ascii_def)
  have o: "doit text_engine ?e = Some (ascii ''doit(Derivative(x**3, x))'')"
    by (simp add: text_engine_def ascii_def)
  have p: "preprocess_text russian_db ?s = ascii ''diff(x**3, x)''"
    by (simp add: normalizer_defs char_classes)
  have m: "re_search (m_two_args (ascii ''diff'')) (ascii ''diff(x**3, x)'')
      = Some (ascii ''x**3'', ascii ''x'')"
    by (simp add: m_two_args_def ascii_def is_space_def)
  have pp: "parse_plain russian_db text_engine ?s = Some ?e"
    unfolding parse_plain_def p Let_def m
    by (simp add: construct_call_def text_engine_def strip_def is_space_def ascii_def)
  have q: "61 \<notin> set ?s"
    by (simp add: ascii_def)
  have pm: "parse_mathematical_expression russian_db text_engine ?s = Inr ?e"
    using q pp by (simp add: parse_mathematical_expression_def)
  have t: "detect_input_type ?s = Mathematical"
    by (simp add: detect_input_type_def m_latex_command_def m_brace_group_def ascii_def)
  have v: "validate_expression text_engine ?e"
    by (simp add: validate_expression_def text_engine_def ascii_def)
  have s1: "step1_parse_and_validate russian_db text_engine ?s =
      \<lparr>s1_success = True, s1_input_type = Some Mathematical, s1_original_input = ?s,
       s1_preprocessed = Some ?e, s1_parsed_expression = Some ?e,
       s1_validation_result = True, s1_errors = []\<rparr>"
    unfolding step1_parse_and_validate_def Let_def t pm using v
    by (simp add: text_engine_def)
  have a: "s1_parsed_expression (step1_parse_and_validate russian_db text_engine ?s) = Some ?e"
    and b: "s1_success (step1_parse_and_validate russian_db text_engine ?s)"
    unfolding s1 by simp_all
  note T = derivative_integral_pass_unsimplified [of text_engine ?e, OF disjI1 [OF d]]
  from T a b have "f_stages (process_user_input russian_db text_engine ?s True) =
      [Parsed (step1_parse_and_validate russian_db text_engine ?s),
       Simplified \<lparr>s2_success = True, s2_original_expression = Some ?e,
                   s2_simplified_expression = Some ?e, s2_simplification_steps = [],
                   s2_errors = []\<rparr>,
       Solved (step3_solve text_engine (Some ?e)),
       Formatted (step4_format_output text_engine (s3_solutions (step3_solve text_engine (Some ?e)))
                    (s3_problem_type (step3_solve text_engine (Some ?e))))]"
    by blast
  then have l: "length (f_stages (process_user_input russian_db text_engine ?s True)) = 4"
    by simp
  from T have "doit text_engine ?e = Some v \<longrightarrow>
        step3_solve text_engine (s2_simplified_expression (step2_simplify text_engine (Some ?e))) =
          \<lparr>s3_success = True,
           s3_problem_type = Some (if is_Derivative text_engine ?e then Derivative else Integral),
           s3_solutions = Some v, s3_errors = []\<rparr>" for v
    by blast
  from this [of "ascii ''doit(Derivative(x**3, x))''"] o have 3: "step3_solve text_engine
        (s2_simplified_expression (step2_simplify text_engine (Some ?e)))
       = \<lparr>s3_success = True, s3_problem_type = Some Derivative,
          s3_solutions = Some (ascii ''doit(Derivative(x**3, x))''), s3_errors = []\<rparr>"
    using d by simp
  from T have 2: "step2_simplify text_engine (Some ?e) =
       \<lparr>s2_success = True, s2_original_expression = Some ?e,
        s2_simplified_expression = Some ?e, s2_simplification_steps = [], s2_errors = []\<rparr>"
    by blast
  show ?thesis
    using d o a b 2 3 l by blast
qed

section \<open>Failures and the pipeline\<close>

text \<open>
  C7 (the code departs from the claim). The claim: a failure of stage 1, and only that,
  aborts the request, with the result marked failed and the diagnostics kept; a later
  stage never aborts it. The code returns early on a failed stage 1 only inside
  \<^verbatim>\<open>if show_steps:\<close>. With \<^verbatim>\<open>show_steps=False\<close> an input that the parser rejects, such
  as \<^verbatim>\<open>(\<close>, is not aborted: \<^verbatim>\<open>None\<close> flows through the three later stages and the
  result is marked successful. With \<^verbatim>\<open>show_steps=True\<close> the same input is aborted as
  the claim says.
\<close>

theorem failed_parse_not_aborted_without_steps:
  assumes "parse_expr eng (ascii ''('') = None"
  shows "step1_parse_and_validate U eng (ascii ''('') =
       \<lparr>s1_success = False, s1_input_type = Some Mathematical,
        s1_original_input = ascii ''('', s1_preprocessed = None,
        s1_parsed_expression = None, s1_validation_result = False,
        s1_errors = [CannotParse (ascii ''('')]\<rparr>
   \<and> process_user_input U eng (ascii ''('') True =
       \<lparr>f_success = False, f_original_input = ascii ''('',
        f_stages = [Parsed (step1_parse_and_validate U eng (ascii ''(''))],
        f_final_answer = None, f_problem_type = None\<rparr>
   \<and> f_success (process_user_input U eng (ascii ''('') False) = True
   \<and> f_stages (process_user_input U eng (ascii ''('') False) =
       [Parsed (step1_parse_and_validate U eng (ascii ''('')),
        Simplified \<lparr>s2_success = False, s2_original_expression = None,
                    s2_simplified_expression = None, s2_simplification_steps = [],
                    s2_errors = [EngineFailure]\<rparr>,
        Solved (step3_solve eng None),
        Formatted (step4_format_output eng (s3_solutions (step3_solve eng None))
                     (s3_problem_type (step3_solve eng None)))]"
proof -
  let ?s = "ascii ''(''"
  have p: "preprocess_text U ?s = ?s"
    by (simp add: normalizer_defs char_classes)
  have n: "notation_text U eng ?s = ?s"
    by (simp add: resolver_defs normalizer_defs char_classes)
  have i: "\<not> contains (ascii ''integrate('') ?s" and d: "\<not> contains (ascii ''diff('') ?s"
    by (simp_all add: ascii_def)
  have pp: "parse_plain U eng ?s = None"
    unfolding parse_plain_def handle_mathematical_notation_def p using i d n assms by simp
  have q: "61 \<notin> set ?s"
    by (simp add: ascii_def)
  have pm: "parse_mathematical_expression U eng ?s = Inl (CannotParse ?s)"
    using q pp by (simp add: parse_mathematical_expression_def)
  have t: "detect_input_type ?s = Mathematical"
    by (simp add: detect_input_type_def m_latex_command_def m_brace_group_def ascii_def)
  have s1: "step1_parse_and_validate U eng ?s =
       \<lparr>s1_success = False, s1_input_type = Some Mathematical,
        s1_original_input = ?s, s1_preprocessed = None,
        s1_parsed_expression = None, s1_validation_result = False,
        s1_errors = [CannotParse ?s]\<rparr>"
    unfolding step1_parse_and_validate_def Let_def t pm by simp
  have a: "process_user_input U eng ?s True =
       \<lparr>f_success = False, f_original_input = ?s,
        f_stages = [Parsed (step1_parse_and_validate U eng ?s)],
        f_final_answer = None, f_problem_type = None\<rparr>"
    unfolding process_user_input_def Let_def by (simp add: s1)
  have 2: "step2_simplify eng None =
      \<lparr>s2_success = False, s2_original_expression = None,
       s2_simplified_expression = None, s2_simplification_steps = [],
       s2_errors = [EngineFailure]\<rparr>"
    by (simp add: step2_simplify_def)
  have b: "f_success (process_user_input U eng ?s False) = True"
    unfolding process_user_input_def Let_def by simp
  have c: "f_stages (process_user_input U eng ?s False) =
       [Parsed (step1_parse_and_validate U eng ?s),
        Simplified \<lparr>s2_success = False, s2_original_expression = None,
                    s2_simplified_expression = None, s2_simplification_steps = [],
                    s2_errors = [EngineFailure]\<rparr>,
        Solved (step3_solve eng None),
        Formatted (step4_format_output eng (s3_solutions (step3_solve eng None))
                     (s3_problem_type (step3_solve eng None)))]"
    unfolding process_user_input_def Let_def by (simp add: s1 2)
  show ?thesis
    using s1 a b c by simp
qed

theorem failed_parse_not_aborted_without_steps_witness:
  "parse_expr text_engine (ascii ''('') = None
   \<and> \<not> s1_success (step1_parse_and_validate russian_db text_engine (ascii ''(''))
   \<and> f_success (process_user_input russian_db text_engine (ascii ''('') False) = True
   \<and> length (f_stages (process_user_input russian_db text_engine (ascii ''('') False)) = 4
   \<and> f_success (process_user_input russian_db text_engine (ascii ''('') True) = False"
proof -
  have a: "parse_expr text_engine (ascii ''('') = None"
    by (simp add: text_engine_def ascii_def)
  show ?thesis
    using failed_parse_not_aborted_without_steps [OF a, of russian_db] a by simp
qed

text \<open>
  The rest of the claim holds: a request whose stage 1 succeeded always runs its four
  stages and is marked successful, and a failed stage 1 aborts the request whenever
  the steps are shown.
\<close>

lemma later_failures_never_abort:
  "s1_success (step1_parse_and_validate U eng s) \<Longrightarrow>
     f_success (process_user_input U eng s show_steps)
     \<and> length (f_stages (process_user_input U eng s show_steps)) = 4
     \<and> f_final_answer (process_user_input U eng s show_steps) \<noteq> None"
  by (simp add: process_user_input_def Let_def)

lemma failed_stage1_aborts_when_showing_steps:
  "\<not> s1_success (step1_parse_and_validate U eng s) \<Longrightarrow>
     process_user_input U eng s True =
       \<lparr>f_success = False, f_original_input = s,
        f_stages = [Parsed (step1_parse_and_validate U eng s)],
        f_final_answer = None, f_problem_type = None\<rparr>"
  by (simp add: process_user_input_def Let_def)

lemma failed_stage1_not_aborted_otherwise:
  "f_success (process_user_input U eng s False)
     \<and> length (f_stages (process_user_input U eng s False)) = 4"
  by (simp add: process_user_input_def Let_def)

section \<open>Idempotence of the normalizer\<close>

subsection \<open>Scanning\<close>

lemma re_sub_from_skip:
  "k \<le> length s \<Longrightarrow>
     re_sub_from m k prev s
       = re_sub_from m 0 (if k = 0 then prev else Some (s ! (k - 1))) (drop k s)"
proof (induction s arbitrary: k prev)
  case Nil
  then show ?case by simp
next
  case (Cons c cs)
  show ?case
  proof (cases k)
    case 0
    then show ?thesis by simp
  next
    case (Suc j)
    with Cons.prems have "j \<le> length cs" by simp
    from Cons.IH [OF this, of "Some c"] Suc show ?thesis
      by (cases j) simp_all
  qed
qed

lemma replace_char:
  "re_sub_from (m_literal [c] new) 0 prev s = concat (map (\<lambda>x. if x = c then new else [x]) s)"
  by (induction s arbitrary: prev) (simp_all add: m_literal_def)

lemma py_replace_char:
  "py_replace [c] new s = concat (map (\<lambda>x. if x = c then new else [x]) s)"
  by (simp add: py_replace_def re_sub_def replace_char)

lemma symbols_append:
  "replace_all symbol_replacements (a @ b)
     = replace_all symbol_replacements a @ replace_all symbol_replacements b"
  unfolding replace_all_def symbol_replacements_def
  by (simp add: py_replace_char ascii_def [of "''^''"])

lemma symbols_char: "replace_all symbol_replacements [x] = sigma x"
  unfolding replace_all_def symbol_replacements_def
  by (simp add: py_replace_char sigma_def ascii_def)

lemma symbols_as_map: "replace_all symbol_replacements s = concat (map sigma s)"
proof (induction s)
  case Nil
  show ?case
    unfolding replace_all_def symbol_replacements_def
    by (simp add: py_replace_char ascii_def [of "''^''"])
next
  case (Cons x xs)
  have "replace_all symbol_replacements (x # xs)
      = replace_all symbol_replacements [x] @ replace_all symbol_replacements xs"
    using symbols_append [of "[x]" xs] by simp
  then show ?case
    using Cons by (simp add: symbols_char)
qed

lemma cyrillic_identity:
  assumes "set s \<inter> {1093, 1091, 1079, 1072, 1073, 1074, 1087, 1077} = {}"
  shows "replace_all cyrillic_replacements s = s"
proof -
  have id: "concat (map (\<lambda>x. if x = c then new else [x]) s) = s" if "c \<notin> set s" for c new
    using that by (induction s) auto
  show ?thesis
    unfolding replace_all_def cyrillic_replacements_def using assms
    by (simp add: py_replace_char id)
qed

subsection \<open>An alias pattern rewrites whole words\<close>

lemma starts_word_simps [simp]:
  "starts_word isw [] = False"
  "starts_word isw (c # cs) = isw c"
  by (simp_all add: starts_word_def)

lemma word_before_simps [simp]:
  "word_before isw None = False"
  "word_before isw (Some p) = isw p"
  by (simp_all add: word_before_def)

lemma at_boundary_iff:
  "at_boundary U prev s \<longleftrightarrow> word_before (is_word U) prev \<noteq> starts_word (is_word U) s"
  by (simp add: at_boundary_def starts_word_def word_before_def)

lemma dropWhile_not_starts: "\<not> starts_word isw (dropWhile isw s)"
  by (induction s) auto

lemma takeWhile_nil_iff: "\<not> starts_word isw s \<Longrightarrow> takeWhile isw s = []"
  by (cases s) auto

lemma whole_word_iff:
  assumes "list_all isw w"
  shows "(prefix w s \<and> \<not> starts_word isw (drop (length w) s)) \<longleftrightarrow> w = takeWhile isw s"
proof
  assume a: "prefix w s \<and> \<not> starts_word isw (drop (length w) s)"
  then obtain z where s: "s = w @ z"
    by (auto simp: prefix_def)
  with a have "takeWhile isw z = []"
    by (simp add: takeWhile_nil_iff)
  then show "w = takeWhile isw s"
    using assms s by (simp add: takeWhile_append2 list_all_iff)
next
  assume w: "w = takeWhile isw s"
  have "prefix (takeWhile isw s) s"
    by (metis prefixI takeWhile_dropWhile_id)
  moreover have "drop (length (takeWhile isw s)) s = dropWhile isw s"
    by (simp add: dropWhile_eq_drop)
  ultimately show "prefix w s \<and> \<not> starts_word isw (drop (length w) s)"
    using w dropWhile_not_starts [of isw s] by simp
qed

lemma m_word_inside:
  assumes "is_word U p" and "list_all (is_word U) y"
  shows "re_sub_from (m_word U w r) 0 (Some p) (y @ z)
     = y @ re_sub_from (m_word U w r) 0 (Some (last (p # y))) z"
  using assms
proof (induction y arbitrary: p)
  case Nil
  show ?case by simp
next
  case (Cons a y)
  have "m_word U w r (Some p) (a # y @ z) = None"
    using Cons.prems by (simp add: m_word_def at_boundary_iff)
  then show ?case
    using Cons by simp
qed

lemma m_word_scan:
  assumes w: "w \<noteq> []" "list_all (is_word U) w"
    and start: "starts_word (is_word U) s \<Longrightarrow> \<not> word_before (is_word U) prev"
  shows "re_sub_from (m_word U w r) 0 prev s
     = map_words (is_word U) (\<lambda>x. if x = w then r else x) s"
  using start
proof (induction s arbitrary: prev rule: length_induct)
  case (1 s)
  let ?m = "m_word U w r"
  let ?f = "\<lambda>x. if x = w then r else x"
  have IH: "re_sub_from ?m 0 q t = map_words (is_word U) ?f t"
    if "length t < length s" and "starts_word (is_word U) t \<Longrightarrow> \<not> word_before (is_word U) q"
    for t q
    using "1.IH" that by blast
  show ?case
  proof (cases s)
    case Nil
    then show ?thesis by simp
  next
    case (Cons c cs)
    show ?thesis
    proof (cases "is_word U c")
      case False
      have "\<not> prefix w (c # cs)"
        using w False by (cases w) auto
      then have n: "?m prev (c # cs) = None"
        by (simp add: m_word_def)
      have "re_sub_from ?m 0 (Some c) cs = map_words (is_word U) ?f cs"
        using Cons False by (intro IH) simp_all
      then show ?thesis
        using Cons False n by simp
    next
      case True
      define y where "y = takeWhile (is_word U) cs"
      define z where "z = dropWhile (is_word U) cs"
      have cs: "cs = y @ z"
        by (simp add: y_def z_def)
      have ally: "list_all (is_word U) y"
        unfolding y_def list_all_iff by (auto dest: set_takeWhileD)
      have zh: "\<not> starts_word (is_word U) z"
        unfolding z_def by (rule dropWhile_not_starts)
      have zlen: "length z < length s"
        using Cons cs by simp
      have ih: "re_sub_from ?m 0 q z = map_words (is_word U) ?f z" for q
        using zlen zh by (intro IH) simp_all
      have tw: "takeWhile (is_word U) (c # cs) = c # y"
        using True by (simp add: y_def)
      have bnd: "at_boundary U prev (c # cs)"
        using "1.prems" Cons True by (simp add: at_boundary_iff)
      have lastw: "is_word U (last w)"
        using w by (simp add: list_all_iff)
      have after: "at_boundary U (Some (last w)) t \<longleftrightarrow> \<not> starts_word (is_word U) t" for t
        using lastw by (simp add: at_boundary_iff)
      have match: "?m prev (c # cs) = (if w = c # y then Some (r, length w) else None)"
        unfolding m_word_def after using bnd whole_word_iff [OF w(2), of "c # cs"] tw
        by auto
      have mw: "map_words (is_word U) ?f (c # cs)
          = ?f (c # y) @ map_words (is_word U) ?f z"
        using True by (simp add: y_def z_def)
      show ?thesis
      proof (cases "w = c # y")
        case eq: True
        have len: "length w - 1 = length y"
          using eq by simp
        have "length y \<le> length cs"
          using cs by simp
        from re_sub_from_skip [OF this, of ?m "Some c"]
        have "re_sub_from ?m (length y) (Some c) cs
            = map_words (is_word U) ?f z"
          using ih cs by simp
        then show ?thesis
          unfolding Cons mw using match eq len by simp
      next
        case False
        have "re_sub_from ?m 0 (Some c) (y @ z) = y @ map_words (is_word U) ?f z"
          using m_word_inside [OF True ally, of w r z] ih by simp
        then show ?thesis
          unfolding Cons mw using match False cs by simp
      qed
    qed
  qed
qed

lemma m_word_pass:
  assumes "w \<noteq> []" and "list_all (is_word U) w"
  shows "re_sub (m_word U w r) s = map_words (is_word U) (\<lambda>x. if x = w then r else x) s"
  unfolding re_sub_def by (rule m_word_scan [OF assms]) simp

subsection \<open>Maps over word runs\<close>

lemma dropWhile_id: "\<not> starts_word isw z \<Longrightarrow> dropWhile isw z = z"
  by (cases z) auto

lemma map_words_append:
  assumes "y \<noteq> []" and "list_all isw y"
  shows "map_words isw f (y @ z)
     = f (y @ takeWhile isw z) @ map_words isw f (dropWhile isw z)"
proof -
  obtain c y' where y: "y = c # y'"
    using assms(1) by (cases y) auto
  have a: "\<forall>x \<in> set y'. isw x" and c: "isw c"
    using assms(2) y by (simp_all add: list_all_iff)
  have "takeWhile isw (y' @ z) = y' @ takeWhile isw z"
    using a by (simp add: takeWhile_append2)
  moreover have "dropWhile isw (y' @ z) = dropWhile isw z"
    using a by (simp add: dropWhile_append2)
  ultimately show ?thesis
    using y c by simp
qed

lemma all_words_append:
  assumes "y \<noteq> []" and "list_all isw y"
  shows "all_words isw P (y @ z)
     \<longleftrightarrow> P (y @ takeWhile isw z) \<and> all_words isw P (dropWhile isw z)"
proof -
  obtain c y' where y: "y = c # y'"
    using assms(1) by (cases y) auto
  have a: "\<forall>x \<in> set y'. isw x" and c: "isw c"
    using assms(2) y by (simp_all add: list_all_iff)
  have "takeWhile isw (y' @ z) = y' @ takeWhile isw z"
    using a by (simp add: takeWhile_append2)
  moreover have "dropWhile isw (y' @ z) = dropWhile isw z"
    using a by (simp add: dropWhile_append2)
  ultimately show ?thesis
    using y c by simp
qed

lemma map_words_word:
  assumes "y \<noteq> []" and "list_all isw y" and "\<not> starts_word isw z"
  shows "map_words isw f (y @ z) = f y @ map_words isw f z"
  using map_words_append [OF assms(1,2)] assms(3)
  by (simp add: takeWhile_nil_iff dropWhile_id)

lemma all_words_word:
  assumes "y \<noteq> []" and "list_all isw y" and "\<not> starts_word isw z"
  shows "all_words isw P (y @ z) \<longleftrightarrow> P y \<and> all_words isw P z"
  using all_words_append [OF assms(1,2)] assms(3)
  by (simp add: takeWhile_nil_iff dropWhile_id)

lemma map_words_not_starts:
  "\<not> starts_word isw z \<Longrightarrow> \<not> starts_word isw (map_words isw f z)"
  by (cases z) auto

lemma first_word:
  "isw c \<Longrightarrow> c # takeWhile isw cs \<noteq> [] \<and> list_all isw (c # takeWhile isw cs)"
  by (auto simp: list_all_iff dest: set_takeWhileD)

lemma map_words_id: "map_words isw (\<lambda>x. x) s = s"
  by (induction isw "\<lambda>x :: ustring. x" s rule: map_words.induct) simp_all

lemma map_words_fixed:
  "all_words isw (\<lambda>x. f x = x) s \<Longrightarrow> map_words isw f s = s"
  by (induction isw f s rule: map_words.induct) (simp_all split: if_splits)

lemma map_words_comp:
  assumes g: "\<And>x. x \<noteq> [] \<Longrightarrow> list_all isw x \<Longrightarrow> g x \<noteq> [] \<and> list_all isw (g x)"
  shows "map_words isw f (map_words isw g s) = map_words isw (\<lambda>x. f (g x)) s"
  using g
proof (induction isw g s rule: map_words.induct)
  case (1 isw g)
  show ?case by simp
next
  case (2 isw g c cs)
  show ?case
  proof (cases "isw c")
    case True
    let ?x = "c # takeWhile isw cs"
    have gx: "g ?x \<noteq> [] \<and> list_all isw (g ?x)"
      using first_word [of isw c cs] True "2.prems" by blast
    have "map_words isw f (g ?x @ map_words isw g (dropWhile isw cs))
        = f (g ?x) @ map_words isw f (map_words isw g (dropWhile isw cs))"
      using gx by (intro map_words_word) (simp_all add: map_words_not_starts dropWhile_not_starts)
    then show ?thesis
      using True "2.IH"(1) "2.prems" by simp
  next
    case False
    then show ?thesis
      using "2.IH"(2) "2.prems" by simp
  qed
qed

lemma all_words_map_words:
  assumes g: "\<And>x. x \<noteq> [] \<Longrightarrow> list_all isw x \<Longrightarrow> g x \<noteq> [] \<and> list_all isw (g x)"
    and P: "\<And>x. x \<noteq> [] \<Longrightarrow> list_all isw x \<Longrightarrow> P (g x)"
  shows "all_words isw P (map_words isw g s)"
  using g P
proof (induction isw g s rule: map_words.induct)
  case (1 isw g)
  show ?case by simp
next
  case (2 isw g c cs)
  show ?case
  proof (cases "isw c")
    case True
    let ?x = "c # takeWhile isw cs"
    have gx: "g ?x \<noteq> [] \<and> list_all isw (g ?x)" and px: "P (g ?x)"
      using first_word [of isw c cs] True "2.prems" by blast+
    have "all_words isw P (g ?x @ map_words isw g (dropWhile isw cs))
        \<longleftrightarrow> P (g ?x) \<and> all_words isw P (map_words isw g (dropWhile isw cs))"
      using gx by (intro all_words_word) (simp_all add: map_words_not_starts dropWhile_not_starts)
    then show ?thesis
      using True "2.IH"(1) "2.prems" px by simp
  next
    case False
    then show ?thesis
      using "2.IH"(2) "2.prems" by simp
  qed
qed

subsection \<open>The table of aliases\<close>

lemma aliases_as_map:
  assumes "\<forall>(w, r) \<in> set table.
      w \<noteq> [] \<and> list_all (is_word U) w \<and> r \<noteq> [] \<and> list_all (is_word U) r"
  shows "replace_aliases U table s
     = map_words (is_word U) (\<lambda>x. foldl (\<lambda>y (w, r). if y = w then r else y) x table) s"
  using assms
proof (induction table arbitrary: s)
  case Nil
  show ?case by (simp add: replace_aliases_def map_words_id)
next
  case (Cons p table)
  obtain w r where p: "p = (w, r)" by (cases p)
  have w: "w \<noteq> []" "list_all (is_word U) w" and r: "r \<noteq> []" "list_all (is_word U) r"
    using Cons.prems p by simp_all
  have rest: "\<forall>(w, r) \<in> set table.
      w \<noteq> [] \<and> list_all (is_word U) w \<and> r \<noteq> [] \<and> list_all (is_word U) r"
    using Cons.prems by simp
  have "replace_aliases U (p # table) s = replace_aliases U table (re_sub (m_word U w r) s)"
    by (simp add: replace_aliases_def p)
  also have "\<dots> = map_words (is_word U)
      (\<lambda>x. foldl (\<lambda>y (w, r). if y = w then r else y) x table)
      (map_words (is_word U) (\<lambda>x. if x = w then r else x) s)"
    unfolding Cons.IH [OF rest] m_word_pass [OF w] ..
  also have "\<dots> = map_words (is_word U)
      (\<lambda>x. foldl (\<lambda>y (w, r). if y = w then r else y) (if x = w then r else x) table) s"
    by (rule map_words_comp) (use r in auto)
  finally show ?case
    by (simp add: p)
qed

lemma alias_of_values:
  "alias_of (ascii ''lg'') = ascii ''log10''" "alias_of (ascii ''ln'') = ascii ''log''"
  "alias_of (ascii ''arctg'') = ascii ''atan''" "alias_of (ascii ''arcsin'') = ascii ''asin''"
  "alias_of (ascii ''arccos'') = ascii ''acos''" "alias_of (ascii ''sh'') = ascii ''sinh''"
  "alias_of (ascii ''ch'') = ascii ''cosh''" "alias_of (ascii ''th'') = ascii ''tanh''"
  "alias_of (ascii ''log10'') = ascii ''log10''" "alias_of (ascii ''log'') = ascii ''log''"
  "alias_of (ascii ''atan'') = ascii ''atan''" "alias_of (ascii ''asin'') = ascii ''asin''"
  "alias_of (ascii ''acos'') = ascii ''acos''" "alias_of (ascii ''sinh'') = ascii ''sinh''"
  "alias_of (ascii ''cosh'') = ascii ''cosh''" "alias_of (ascii ''tanh'') = ascii ''tanh''"
  by (simp_all add: alias_of_def function_aliases_def ascii_def)

lemma alias_of_other:
  assumes "x \<notin> fst ` set function_aliases"
  shows "alias_of x = x"
  using assms by (simp add: alias_of_def function_aliases_def)

lemma alias_of_cases:
  obtains "x \<in> fst ` set function_aliases" "alias_of x \<in> snd ` set function_aliases"
    "alias_of (alias_of x) = alias_of x"
  | "alias_of x = x"
proof (cases "x \<in> fst ` set function_aliases")
  case False
  then show ?thesis
    using alias_of_other that(2) by blast
next
  case True
  then consider "x = ascii ''lg''" | "x = ascii ''ln''" | "x = ascii ''arctg''"
    | "x = ascii ''arcsin''" | "x = ascii ''arccos''" | "x = ascii ''sh''"
    | "x = ascii ''ch''" | "x = ascii ''th''"
    by (auto simp: function_aliases_def)
  then have "alias_of x \<in> snd ` set function_aliases \<and> alias_of (alias_of x) = alias_of x"
    by cases (simp_all add: alias_of_values, simp_all add: function_aliases_def)
  then show ?thesis
    using True that(1) by blast
qed

lemma alias_of_idem: "alias_of (alias_of x) = alias_of x"
  by (rule alias_of_cases [of x]) simp_all

lemma alias_of_word:
  assumes "x \<noteq> []" and "list_all (is_word U) x"
  shows "alias_of x \<noteq> [] \<and> list_all (is_word U) (alias_of x)"
proof (rule alias_of_cases [of x])
  assume "alias_of x \<in> snd ` set function_aliases"
  then show ?thesis
    by (auto simp: function_aliases_def ascii_def is_word_def is_letter_us_def)
next
  assume "alias_of x = x"
  then show ?thesis
    using assms by simp
qed

lemma aliases_map_words:
  "replace_aliases U function_aliases s = map_words (is_word U) alias_of s"
proof -
  have "\<forall>(w, r) \<in> set function_aliases.
      w \<noteq> [] \<and> list_all (is_word U) w \<and> r \<noteq> [] \<and> list_all (is_word U) r"
    by (simp add: function_aliases_def ascii_def is_word_def is_letter_us_def)
  from aliases_as_map [OF this] show ?thesis
    by (simp add: alias_of_def [abs_def])
qed

lemma aliases_words_fixed:
  "all_words (is_word U) (\<lambda>x. alias_of x = x) (replace_aliases U function_aliases s)"
  unfolding aliases_map_words
  by (rule all_words_map_words) (simp_all add: alias_of_word alias_of_idem)

subsection \<open>The operator signs keep every word fixed\<close>

lemma contains_Nil [simp]: "contains [] s"
  by (cases s) simp_all

lemma prefix_contains: "prefix w s \<Longrightarrow> contains w s"
  by (cases s) simp_all

lemma contains_append_right: "contains w y \<Longrightarrow> contains w (y @ b)"
proof (induction y)
  case Nil
  then show ?case by simp
next
  case (Cons a y)
  from Cons.prems consider "prefix w (a # y)" | "contains w y"
    by auto
  then show ?case
  proof cases
    case 1
    then have "prefix w ((a # y) @ b)"
      by (rule prefix_prefix)
    then show ?thesis by simp
  next
    case 2
    then show ?thesis using Cons.IH by simp
  qed
qed

lemma contains_append_left: "contains w y \<Longrightarrow> contains w (a @ y)"
  by (induction a) auto

lemma contains_self: "contains w (w @ b)"
  by (rule prefix_contains) simp

lemma marked_append_right: "marked y \<Longrightarrow> marked (y @ b)"
  by (auto simp: marked_def intro: contains_append_right)

lemma marked_append_left: "marked y \<Longrightarrow> marked (a @ y)"
  by (auto simp: marked_def intro: contains_append_left)

lemma marked_fixed: "marked x \<Longrightarrow> alias_of x = x"
  by (rule alias_of_other) (auto simp: marked_def function_aliases_def ascii_def)

lemma sigma_cases:
  obtains "sigma c = [c]"
  | "\<not> is_word U c" "sigma c \<noteq> []" "list_all (\<lambda>d. \<not> is_word U d) (sigma c)"
  | "sigma c \<noteq> []" "list_all (is_word U) (sigma c)" "marked (sigma c)"
proof -
  consider "c = 94" | "c = 177" | "c = 215" | "c = 247" | "c = 8730" | "c = 8734"
    | "c \<notin> {94, 177, 215, 247, 8730, 8734}"
    by blast
  then show ?thesis
  proof cases
    case 7
    then have "sigma c = [c]" by (simp add: sigma_def)
    then show ?thesis by (rule that(1))
  next
    case 5
    then show ?thesis
      by (intro that(3)) (simp_all add: sigma_def ascii_def marked_def char_classes)
  next
    case 6
    then show ?thesis
      by (intro that(3)) (simp_all add: sigma_def ascii_def marked_def char_classes)
  qed (intro that(2); simp add: sigma_def ascii_def char_classes)+
qed

lemma all_words_nonword_prefix:
  "list_all (\<lambda>d. \<not> isw d) y \<Longrightarrow> all_words isw P (y @ z) = all_words isw P z"
  by (induction y) simp_all

lemma all_words_dropWhile:
  "all_words isw P z \<Longrightarrow> all_words isw P (dropWhile isw z)"
  by (cases z) (auto split: if_splits)

lemma takeWhile_nonword_prefix:
  "y \<noteq> [] \<Longrightarrow> list_all (\<lambda>d. \<not> isw d) y \<Longrightarrow> takeWhile isw (y @ z) = []"
  by (cases y) simp_all

lemma takeWhile_word_prefix:
  "list_all isw y \<Longrightarrow> takeWhile isw (y @ z) = y @ takeWhile isw z"
  by (simp add: takeWhile_append2 list_all_iff)

lemma sym_after_word:
  assumes "\<not> starts_word (is_word U) z"
  shows "takeWhile (is_word U) (concat (map sigma z)) = []
     \<or> marked (takeWhile (is_word U) (concat (map sigma z)))"
proof (cases z)
  case Nil
  then show ?thesis by simp
next
  case (Cons d z')
  have d: "\<not> is_word U d"
    using assms Cons by simp
  show ?thesis
  proof (rule sigma_cases [where c = d and U = U])
    assume "sigma d = [d]"
    then show ?thesis using Cons d by simp
  next
    assume "sigma d \<noteq> []" "list_all (\<lambda>d. \<not> is_word U d) (sigma d)"
    then show ?thesis
      using Cons by (simp add: takeWhile_nonword_prefix)
  next
    assume "list_all (is_word U) (sigma d)" "marked (sigma d)"
    then show ?thesis
      using Cons by (simp add: takeWhile_word_prefix marked_append_right)
  qed
qed

lemma sym_of_word:
  assumes "list_all (is_word U) x"
  shows "list_all (is_word U) (concat (map sigma x))
     \<and> (concat (map sigma x) = x \<or> marked (concat (map sigma x)))
     \<and> (x \<noteq> [] \<longrightarrow> concat (map sigma x) \<noteq> [])"
  using assms
proof (induction x)
  case Nil
  show ?case by simp
next
  case (Cons d x)
  then have d: "is_word U d" and IH: "list_all (is_word U) (concat (map sigma x))"
      "concat (map sigma x) = x \<or> marked (concat (map sigma x))"
    by simp_all
  show ?case
  proof (rule sigma_cases [where c = d and U = U])
    assume "sigma d = [d]"
    then show ?thesis
      using d IH marked_append_left [of "concat (map sigma x)" "[d]"] by auto
  next
    assume "\<not> is_word U d"
    then show ?thesis using d by simp
  next
    assume "sigma d \<noteq> []" "list_all (is_word U) (sigma d)" "marked (sigma d)"
    then show ?thesis
      using IH by (simp add: marked_append_right)
  qed
qed

lemma sym_keeps_words_fixed:
  "all_words (is_word U) (\<lambda>x. alias_of x = x) v
     \<Longrightarrow> all_words (is_word U) (\<lambda>x. alias_of x = x) (concat (map sigma v))"
proof (induction "is_word U" "\<lambda>x. alias_of x = x" v rule: all_words.induct)
  case 1
  show ?case by simp
next
  case (2 c cs)
  let ?Q = "\<lambda>x. alias_of x = x"
  let ?S = "\<lambda>s. concat (map sigma s)"
  show ?case
  proof (cases "is_word U c")
    case False
    then have IH: "all_words (is_word U) ?Q (?S cs)"
      using 2 by simp
    show ?thesis
    proof (rule sigma_cases [where c = c and U = U])
      assume "sigma c = [c]"
      then show ?thesis using False IH by simp
    next
      assume "list_all (\<lambda>d. \<not> is_word U d) (sigma c)"
      then show ?thesis
        using IH by (simp add: all_words_nonword_prefix)
    next
      assume s: "sigma c \<noteq> []" "list_all (is_word U) (sigma c)" "marked (sigma c)"
      have "marked (sigma c @ takeWhile (is_word U) (?S cs))"
        using s(3) by (rule marked_append_right)
      then show ?thesis
        using s IH by (simp add: all_words_append marked_fixed all_words_dropWhile)
    qed
  next
    case True
    define x where "x = c # takeWhile (is_word U) cs"
    define z where "z = dropWhile (is_word U) cs"
    have v: "c # cs = x @ z"
      by (simp add: x_def z_def)
    have xw: "x \<noteq> []" "list_all (is_word U) x"
      using first_word [of "is_word U" c cs] True by (simp_all add: x_def)
    have Qx: "alias_of x = x" and Qz: "all_words (is_word U) ?Q z"
      using "2.prems" True by (simp_all add: x_def z_def)
    have IH: "all_words (is_word U) ?Q (?S z)"
      using "2.hyps"(1) True Qz by (simp add: z_def)
    have zs: "\<not> starts_word (is_word U) z"
      unfolding z_def by (rule dropWhile_not_starts)
    note sx = sym_of_word [OF xw(2)]
    define t where "t = takeWhile (is_word U) (?S z)"
    have t: "t = [] \<or> marked t"
      unfolding t_def by (rule sym_after_word [OF zs])
    have "alias_of (?S x @ t) = ?S x @ t"
    proof (cases "?S x = x \<and> t = []")
      case True
      then show ?thesis using Qx by simp
    next
      case False
      then have "marked (?S x @ t)"
        using sx t marked_append_right [of "?S x" t] marked_append_left [of t "?S x"] by auto
      then show ?thesis by (rule marked_fixed)
    qed
    moreover have "all_words (is_word U) ?Q (?S x @ ?S z)
        \<longleftrightarrow> alias_of (?S x @ t) = ?S x @ t
            \<and> all_words (is_word U) ?Q (dropWhile (is_word U) (?S z))"
      unfolding t_def using sx xw by (intro all_words_append) simp_all
    ultimately have "all_words (is_word U) ?Q (?S x @ ?S z)"
      using IH by (simp add: all_words_dropWhile)
    then show ?thesis
      unfolding v by simp
  qed
qed

subsection \<open>White space\<close>

lemma ws_ok_nonspace_prefix:
  "y \<noteq> [] \<Longrightarrow> list_all (\<lambda>d. \<not> is_space d) y \<Longrightarrow> ws_ok b (y @ z) = ws_ok False z"
proof (induction y arbitrary: b)
  case Nil
  then show ?case by simp
next
  case (Cons a y)
  then show ?case by (cases y) simp_all
qed

lemma ws_ok_spaces: "ws_ok b s \<Longrightarrow> d \<in> set s \<Longrightarrow> is_space d \<Longrightarrow> d = 32"
  by (induction s arbitrary: b) (auto split: if_splits)

lemma ws_ok_last: "ws_ok b s \<Longrightarrow> s \<noteq> [] \<Longrightarrow> \<not> is_space (last s)"
  by (induction s arbitrary: b) (auto split: if_splits)

lemma ws_ok_hd: "ws_ok True s \<Longrightarrow> s \<noteq> [] \<and> \<not> is_space (hd s)"
  by (cases s) (auto split: if_splits)

lemma spaces_fixed: "ws_ok b s \<Longrightarrow> re_sub_from m_spaces 0 prev s = s"
proof (induction s arbitrary: b prev)
  case Nil
  show ?case by simp
next
  case (Cons c cs)
  show ?case
  proof (cases "is_space c")
    case True
    then have c: "c = 32" and ok: "ws_ok True cs"
      using Cons.prems by simp_all
    have "takeWhile is_space cs = []"
      using ws_ok_hd [OF ok] by (cases cs) simp_all
    then have "m_spaces prev (c # cs) = Some ([32], 1)"
      using True by (simp add: m_spaces_def ascii_def)
    then show ?thesis
      using Cons.IH [OF ok] c by simp
  next
    case False
    then have "m_spaces prev (c # cs) = None"
      by (simp add: m_spaces_def)
    moreover have "ws_ok False cs"
      using Cons.prems False by simp
    ultimately show ?thesis
      using Cons.IH by simp
  qed
qed

lemma dropWhile_head: "xs \<noteq> [] \<Longrightarrow> \<not> P (hd xs) \<Longrightarrow> dropWhile P xs = xs"
  by (cases xs) simp_all

lemma strip_fixed: "ws_ok True s \<Longrightarrow> strip s = s"
proof -
  assume ok: "ws_ok True s"
  then have s: "s \<noteq> []" "\<not> is_space (hd s)" "\<not> is_space (last s)"
    using ws_ok_hd ws_ok_last by blast+
  have "dropWhile is_space s = s"
    using s by (intro dropWhile_head)
  moreover have "dropWhile is_space (rev s) = rev s"
    using s by (intro dropWhile_head) (simp_all add: hd_rev)
  ultimately show ?thesis
    by (simp add: strip_def)
qed

lemma last_dropWhile: "dropWhile P xs \<noteq> [] \<Longrightarrow> last (dropWhile P xs) = last xs"
  by (induction xs) (auto split: if_splits)

lemma strip_ends:
  "strip t = [] \<or> (\<not> is_space (hd (strip t)) \<and> \<not> is_space (last (strip t)))"
proof (cases "strip t = []")
  case True
  then show ?thesis by simp
next
  case False
  define a where "a = dropWhile is_space t"
  define b where "b = dropWhile is_space (rev a)"
  have st: "strip t = rev b"
    by (simp add: strip_def a_def b_def)
  have b: "b \<noteq> []"
    using False st by simp
  then have a: "a \<noteq> []"
    by (auto simp: b_def)
  have "\<not> is_space (hd b)"
    using b unfolding b_def by (rule hd_dropWhile)
  then have l: "\<not> is_space (last (strip t))"
    using b st by (simp add: last_rev)
  have "last b = last (rev a)"
    using b unfolding b_def by (rule last_dropWhile)
  also have "\<dots> = hd a"
    using a by (simp add: last_rev)
  finally have "hd (strip t) = hd a"
    using b st by (simp add: hd_rev)
  moreover have "\<not> is_space (hd a)"
    using a unfolding a_def by (rule hd_dropWhile)
  ultimately show ?thesis
    using l by simp
qed

lemma spaces_collapsed:
  assumes "s \<noteq> []" and "\<not> is_space (last s)" and "b \<Longrightarrow> \<not> is_space (hd s)"
  shows "ws_ok b (re_sub_from m_spaces 0 prev s)"
  using assms
proof (induction s arbitrary: b prev rule: length_induct)
  case (1 s)
  have IH: "ws_ok b' (re_sub_from m_spaces 0 q t)"
    if "length t < length s" "t \<noteq> []" "\<not> is_space (last t)" "b' \<Longrightarrow> \<not> is_space (hd t)"
    for t b' q
    using "1.IH" that by blast
  obtain c cs where s: "s = c # cs"
    using "1.prems"(1) by (cases s) auto
  show ?case
  proof (cases "is_space c")
    case False
    then have n: "m_spaces prev (c # cs) = None"
      by (simp add: m_spaces_def)
    show ?thesis
    proof (cases cs)
      case Nil
      then show ?thesis using s n False by simp
    next
      case (Cons d ds)
      have "ws_ok False (re_sub_from m_spaces 0 (Some c) cs)"
        using "1.prems"(2) s Cons by (intro IH) simp_all
      then show ?thesis
        using s n False by simp
    qed
  next
    case True
    then have nb: "\<not> b"
      using "1.prems"(3) s by auto
    define y where "y = takeWhile is_space cs"
    define z where "z = dropWhile is_space cs"
    have cs: "cs = y @ z"
      by (simp add: y_def z_def)
    have "z \<noteq> []"
    proof
      assume "z = []"
      then have "cs = y"
        using cs by simp
      moreover have "\<forall>d \<in> set y. is_space d"
        unfolding y_def by (auto dest: set_takeWhileD)
      ultimately have "\<forall>d \<in> set (c # cs). is_space d"
        using True by simp
      then show False
        using "1.prems"(2) s last_in_set [of "c # cs"] by auto
    qed
    have zl: "last z = last s"
      using \<open>z \<noteq> []\<close> s cs by simp
    have zh: "\<not> is_space (hd z)"
      using \<open>z \<noteq> []\<close> unfolding z_def by (rule hd_dropWhile)
    have m: "m_spaces prev (c # cs) = Some ([32], Suc (length y))"
      using True by (simp add: m_spaces_def y_def ascii_def)
    have "length y \<le> length cs"
      using cs by simp
    from re_sub_from_skip [OF this, of m_spaces "Some c"]
    obtain q where sk: "re_sub_from m_spaces (length y) (Some c) cs = re_sub_from m_spaces 0 q z"
      using cs by simp
    have "ws_ok True (re_sub_from m_spaces 0 q z)"
      using \<open>z \<noteq> []\<close> zl zh "1.prems"(2) s cs by (intro IH) simp_all
    then show ?thesis
      using s m sk nb by (simp add: is_space_def)
  qed
qed

lemma normal_after_spaces:
  "re_sub m_spaces (strip t) = [] \<or> ws_ok True (re_sub m_spaces (strip t))"
proof (cases "strip t = []")
  case True
  then show ?thesis by (simp add: re_sub_def)
next
  case False
  then show ?thesis
    using strip_ends [of t] unfolding re_sub_def by (intro disjI2 spaces_collapsed) simp_all
qed

lemma alias_of_nonspace:
  assumes "list_all (\<lambda>d. \<not> is_space d) x"
  shows "list_all (\<lambda>d. \<not> is_space d) (alias_of x)"
proof (rule alias_of_cases [of x])
  assume "alias_of x \<in> snd ` set function_aliases"
  then show ?thesis
    by (auto simp: function_aliases_def ascii_def is_space_def)
next
  assume "alias_of x = x"
  then show ?thesis using assms by simp
qed

lemma word_not_blank: "is_word U 32 = False"
  by (simp add: char_classes)

lemma aliases_keep_spaces:
  "ws_ok b s \<Longrightarrow> ws_ok b (map_words (is_word U) alias_of s)"
proof (induction "is_word U" alias_of s arbitrary: b rule: map_words.induct)
  case 1
  then show ?case by simp
next
  case (2 c cs)
  show ?case
  proof (cases "is_word U c")
    case False
    then show ?thesis
      using 2 by (auto split: if_splits)
  next
    case True
    define x where "x = c # takeWhile (is_word U) cs"
    define z where "z = dropWhile (is_word U) cs"
    have v: "c # cs = x @ z"
      by (simp add: x_def z_def)
    have xw: "x \<noteq> []" "list_all (is_word U) x"
      using first_word [of "is_word U" c cs] True by (simp_all add: x_def)
    have "\<not> is_space d" if "d \<in> set x" for d
    proof
      assume "is_space d"
      moreover have "d \<in> set (c # cs)"
        using that v by simp
      ultimately have "d = 32"
        using ws_ok_spaces [OF "2.prems"] by blast
      then show False
        using that xw(2) word_not_blank [of U] by (auto simp: list_all_iff)
    qed
    then have xs: "list_all (\<lambda>d. \<not> is_space d) x"
      by (simp add: list_all_iff)
    have "ws_ok False z"
      using "2.prems" xw(1) xs unfolding v by (simp add: ws_ok_nonspace_prefix)
    then have "ws_ok False (map_words (is_word U) alias_of z)"
      using "2.hyps"(1) True by (simp add: z_def)
    moreover have "alias_of x \<noteq> []" "list_all (\<lambda>d. \<not> is_space d) (alias_of x)"
      using alias_of_word [OF xw] alias_of_nonspace [OF xs] by simp_all
    ultimately have "ws_ok b (alias_of x @ map_words (is_word U) alias_of z)"
      by (simp add: ws_ok_nonspace_prefix)
    then show ?thesis
      using True by (simp add: x_def z_def)
  qed
qed

lemma sigma_nonspace: "\<not> is_space c \<Longrightarrow> sigma c \<noteq> [] \<and> list_all (\<lambda>d. \<not> is_space d) (sigma c)"
  by (simp add: sigma_def ascii_def is_space_def)

lemma sigma_space: "is_space c \<Longrightarrow> sigma c = [c]"
  by (auto simp: sigma_def is_space_def)

lemma symbols_keep_spaces: "ws_ok b s \<Longrightarrow> ws_ok b (concat (map sigma s))"
proof (induction s arbitrary: b)
  case Nil
  then show ?case by simp
next
  case (Cons c cs)
  show ?case
  proof (cases "is_space c")
    case True
    then show ?thesis
      using Cons by (simp add: sigma_space)
  next
    case False
    then have "ws_ok False (concat (map sigma cs))"
      using Cons by simp
    then show ?thesis
      using sigma_nonspace [OF False] by (simp add: ws_ok_nonspace_prefix)
  qed
qed

subsection \<open>Characters that stay out\<close>

lemma strip_chars: "list_all P t \<Longrightarrow> list_all P (strip t)"
  by (auto simp: strip_def list_all_iff dest!: set_dropWhileD)

lemma spaces_chars:
  "P 32 \<Longrightarrow> list_all P s \<Longrightarrow> list_all P (re_sub_from m_spaces k prev s)"
proof (induction s arbitrary: k prev)
  case Nil
  then show ?case by simp
next
  case (Cons c cs)
  then show ?case
    by (cases k) (auto simp: m_spaces_def ascii_def Let_def)
qed

lemma alias_of_chars:
  assumes "\<And>c. c < 128 \<Longrightarrow> P c" and "list_all P x"
  shows "list_all P (alias_of x)"
proof (rule alias_of_cases [of x])
  assume "alias_of x \<in> snd ` set function_aliases"
  then show ?thesis
    using assms(1) by (auto simp: function_aliases_def ascii_def)
next
  assume "alias_of x = x"
  then show ?thesis using assms(2) by simp
qed

lemma aliases_chars:
  assumes "\<And>c. c < 128 \<Longrightarrow> P c"
  shows "list_all P s \<Longrightarrow> list_all P (map_words isw alias_of s)"
proof (induction isw alias_of s rule: map_words.induct)
  case (1 isw)
  then show ?case by simp
next
  case (2 isw c cs)
  show ?case
  proof (cases "isw c")
    case False
    then show ?thesis using 2 by simp
  next
    case True
    have "list_all P (c # takeWhile isw cs)"
      using "2.prems" by (auto simp: list_all_iff dest: set_takeWhileD)
    then have "list_all P (alias_of (c # takeWhile isw cs))"
      using assms by (rule alias_of_chars [rotated])
    moreover have "list_all P (dropWhile isw cs)"
      using "2.prems" by (auto simp: list_all_iff dest: set_dropWhileD)
    ultimately show ?thesis
      using True "2.hyps"(1) by simp
  qed
qed

lemma sigma_chars:
  assumes "\<And>c. c < 128 \<Longrightarrow> P c" and "P c"
  shows "list_all P (sigma c)"
  using assms by (simp add: sigma_def ascii_def)

lemma symbols_chars:
  assumes "\<And>c. c < 128 \<Longrightarrow> P c"
  shows "list_all P s \<Longrightarrow> list_all P (concat (map sigma s))"
  using sigma_chars [of P, OF assms] by (induction s) simp_all

lemma sigma_sigma: "concat (map sigma (sigma c)) = sigma c"
  by (simp add: sigma_def ascii_def)

lemma symbols_idem: "concat (map sigma (concat (map sigma s))) = concat (map sigma s)"
  by (induction s) (simp_all add: sigma_sigma)

subsection \<open>Idempotence\<close>

text \<open>
  C9 as amended: for every input without the eight Cyrillic letters of the homoglyph
  table, whatever the interpreter's Unicode tables, normalizing the normalized text
  changes nothing.
\<close>

theorem normalization_idempotent_without_cyrillic:
  assumes "set t \<inter> {1093, 1091, 1079, 1072, 1073, 1074, 1087, 1077} = {}"
  shows "preprocess_text U (preprocess_text U t) = preprocess_text U t"
proof -
  let ?P = "\<lambda>c. c \<notin> {1093, 1091, 1079, 1072, 1073, 1074, 1087, 1077 :: nat}"
  have ascii: "?P c" if "c < 128" for c
    using that by auto
  have free: "replace_all cyrillic_replacements s = s" if "list_all ?P s" for s
    using that by (intro cyrillic_identity) (auto simp: list_all_iff)
  define u where "u = re_sub m_spaces (strip t)"
  define v where "v = map_words (is_word U) alias_of u"
  define z where "z = concat (map sigma v)"
  have Pt: "list_all ?P t"
    using assms by (auto simp: list_all_iff)
  have Pu: "list_all ?P u"
    unfolding u_def re_sub_def using Pt by (intro spaces_chars strip_chars) simp_all
  have Pv: "list_all ?P v"
    unfolding v_def using ascii Pu by (rule aliases_chars)
  have Pz: "list_all ?P z"
    unfolding z_def using ascii Pv by (rule symbols_chars)
  have fv: "replace_all cyrillic_replacements v = v"
    using Pv by (rule free)
  have fz: "replace_all cyrillic_replacements z = z"
    using Pz by (rule free)
  have "replace_aliases U function_aliases u = v"
    by (simp add: aliases_map_words v_def)
  then have N: "preprocess_text U t = z"
    by (simp add: preprocess_text_def u_def [symmetric] fv symbols_as_map z_def)
  have wu: "u = [] \<or> ws_ok True u"
    unfolding u_def by (rule normal_after_spaces)
  have W: "re_sub m_spaces (strip z) = z"
  proof (cases "u = []")
    case True
    then show ?thesis
      by (simp add: z_def v_def re_sub_def strip_def)
  next
    case False
    then have "ws_ok True z"
      unfolding z_def v_def using wu by (intro symbols_keep_spaces aliases_keep_spaces) simp
    then show ?thesis
      by (simp add: strip_fixed re_sub_def spaces_fixed)
  qed
  have "all_words (is_word U) (\<lambda>x. alias_of x = x) v"
    using aliases_words_fixed [of U u] by (simp add: aliases_map_words v_def)
  then have "all_words (is_word U) (\<lambda>x. alias_of x = x) z"
    unfolding z_def by (rule sym_keeps_words_fixed)
  then have A: "map_words (is_word U) alias_of z = z"
    by (rule map_words_fixed)
  have S: "concat (map sigma z) = z"
    unfolding z_def by (rule symbols_idem)
  have "preprocess_text U z = z"
    by (simp add: preprocess_text_def W aliases_map_words A fz symbols_as_map S)
  then show ?thesis
    unfolding N .
qed

theorem normalization_idempotent_without_cyrillic_witness:
  "set (ascii '' lg(100)  +  ln x^2 '' @ [8730, 215]) \<inter> {1093, 1091, 1079, 1072, 1073, 1074, 1087, 1077} = {}
   \<and> preprocess_text russian_db (ascii '' lg(100)  +  ln x^2 '' @ [8730, 215])
       = ascii ''log10(100) + log x**2 sqrt*''
   \<and> preprocess_text russian_db
        (preprocess_text russian_db (ascii '' lg(100)  +  ln x^2 '' @ [8730, 215]))
       = preprocess_text russian_db (ascii '' lg(100)  +  ln x^2 '' @ [8730, 215])"
proof -
  let ?t = "ascii '' lg(100)  +  ln x^2 '' @ [8730, 215]"
  have a: "set ?t \<inter> {1093, 1091, 1079, 1072, 1073, 1074, 1087, 1077} = {}"
    by (simp add: ascii_def)
  have b: "preprocess_text russian_db ?t = ascii ''log10(100) + log x**2 sqrt*''"
    by (simp add: normalizer_defs char_classes)
  show ?thesis
    using normalization_idempotent_without_cyrillic [OF a, of russian_db] a b by simp
qed

text \<open>
  C9 (corrected). The claim: normalization is idempotent on every input. It fails where
  a homoglyph completes an alias: Cyrillic ve before \<^verbatim>\<open>h\<close> is no alias when the aliases
  are rewritten, becomes \<^verbatim>\<open>ch\<close> afterwards, and a second pass rewrites that to \<^verbatim>\<open>cosh\<close>.
\<close>

theorem normalization_not_idempotent_counterexample:
  "preprocess_text russian_db ([1074] @ ascii ''h'') = ascii ''ch''
   \<and> preprocess_text russian_db (preprocess_text russian_db ([1074] @ ascii ''h'')) = ascii ''cosh''
   \<and> preprocess_text russian_db (preprocess_text russian_db ([1074] @ ascii ''h''))
       \<noteq> preprocess_text russian_db ([1074] @ ascii ''h'')"
proof -
  have a: "preprocess_text russian_db ([1074] @ ascii ''h'') = ascii ''ch''"
    by (simp add: normalizer_defs char_classes russian_db_def)
  have b: "preprocess_text russian_db (ascii ''ch'') = ascii ''cosh''"
    by (simp add: normalizer_defs char_classes)
  show ?thesis
    unfolding a b by (simp add: ascii_def)
qed

end
